theory Spec2Isabelle
  imports Complex_Main
begin

section \<open>Numbers and arrays of the TypeScript source\<close>

subsection \<open>Rounding to a double\<close>

text \<open>
  The program (src/main.ts) computes with JavaScript numbers: IEEE 754 binary64 values,
  every arithmetic operation giving the exact result rounded to the nearest double, ties
  to the even significand. A finite double is \<open>m * 2^e\<close> with an integer \<open>\<bar>m\<bar> < 2^53\<close> and
  \<open>- 1074 \<le> e \<le> 971\<close>.

  \<open>expo x\<close> is the binary exponent of \<open>x\<close>, not below that of the subnormal range, and
  \<open>ulp x\<close> the distance between the doubles around \<open>x\<close>. \<open>rne\<close> rounds a real to the
  nearest integer, a half to the even neighbour. \<open>rnd x\<close> is \<open>x\<close> rounded as if no
  exponent were too large; \<open>round_num\<close> adds the overflow to an infinity, which
  happens when the rounded magnitude reaches \<open>2^1024\<close> (\<open>overflowAt\<close>).
\<close>

definition expo :: "real \<Rightarrow> int" where
  "expo x = max (- 1022) \<lfloor>log 2 \<bar>x\<bar>\<rfloor>"

definition ulp :: "real \<Rightarrow> real" where
  "ulp x = 2 powr real_of_int (expo x - 52)"

definition rne :: "real \<Rightarrow> int" where
  "rne m = (let f = \<lfloor>m\<rfloor>; d = m - real_of_int f in
            if d < 1 / 2 then f else if 1 / 2 < d then f + 1 else if even f then f else f + 1)"

definition rnd :: "real \<Rightarrow> real" where
  "rnd x = real_of_int (rne (x / ulp x)) * ulp x"

text \<open>
  The multiples of the smallest subnormal \<open>2^-1074\<close>; every double is one (used in
  the proofs only).
\<close>

definition onGrid :: "real \<Rightarrow> bool" where
  "onGrid x \<longleftrightarrow> (\<exists>k::int. x = real_of_int k * 2 powr (- 1074))"

text \<open>
  A number: a finite value, one of the two infinities, or NaN. The sign of a zero is not
  kept: \<open>-0\<close> and \<open>0\<close> are one value (they differ only as divisors, and no divisor of the
  modelled code can be \<open>-0\<close>).
\<close>

datatype num = Num real | PInf | NInf | NaN

definition overflowAt :: real where
  "overflowAt = 2 ^ 1024"

definition round_num :: "real \<Rightarrow> num" where
  "round_num x =
     (let y = rnd x in
      if overflowAt \<le> y then PInf else if y \<le> - overflowAt then NInf else Num y)"

text \<open>A value a variable of type \<open>number\<close> can hold, and a finite one.\<close>

fun isDouble :: "num \<Rightarrow> bool" where
  "isDouble (Num x) = (round_num x = Num x)"
| "isDouble PInf = True"
| "isDouble NInf = True"
| "isDouble NaN = True"

fun isFiniteDouble :: "num \<Rightarrow> bool" where
  "isFiniteDouble (Num x) = (round_num x = Num x)"
| "isFiniteDouble PInf = False"
| "isFiniteDouble NInf = False"
| "isFiniteDouble NaN = False"

subsection \<open>Arithmetic and comparison\<close>

text \<open>The operators \<open>+\<close>, \<open>-\<close>, \<open>*\<close>, \<open>/\<close> of the language on numbers.\<close>

fun fneg :: "num \<Rightarrow> num" where
  "fneg (Num x) = Num (- x)"
| "fneg PInf = NInf"
| "fneg NInf = PInf"
| "fneg NaN = NaN"

fun fadd :: "num \<Rightarrow> num \<Rightarrow> num" where
  "fadd (Num x) (Num y) = round_num (x + y)"
| "fadd NaN b = NaN"
| "fadd a NaN = NaN"
| "fadd PInf NInf = NaN"
| "fadd NInf PInf = NaN"
| "fadd PInf b = PInf"
| "fadd a PInf = PInf"
| "fadd NInf b = NInf"
| "fadd a NInf = NInf"

definition fsub :: "num \<Rightarrow> num \<Rightarrow> num" where
  "fsub a b = fadd a (fneg b)"

fun fmul :: "num \<Rightarrow> num \<Rightarrow> num" where
  "fmul (Num x) (Num y) = round_num (x * y)"
| "fmul NaN b = NaN"
| "fmul a NaN = NaN"
| "fmul (Num x) PInf = (if x = 0 then NaN else if 0 < x then PInf else NInf)"
| "fmul (Num x) NInf = (if x = 0 then NaN else if 0 < x then NInf else PInf)"
| "fmul PInf (Num y) = (if y = 0 then NaN else if 0 < y then PInf else NInf)"
| "fmul NInf (Num y) = (if y = 0 then NaN else if 0 < y then NInf else PInf)"
| "fmul PInf PInf = PInf"
| "fmul PInf NInf = NInf"
| "fmul NInf PInf = NInf"
| "fmul NInf NInf = PInf"

fun fdiv :: "num \<Rightarrow> num \<Rightarrow> num" where
  "fdiv (Num x) (Num y) =
     (if y = 0 then (if x = 0 then NaN else if 0 < x then PInf else NInf)
      else round_num (x / y))"
| "fdiv NaN b = NaN"
| "fdiv a NaN = NaN"
| "fdiv (Num x) PInf = Num 0"
| "fdiv (Num x) NInf = Num 0"
| "fdiv PInf (Num y) = (if 0 \<le> y then PInf else NInf)"
| "fdiv NInf (Num y) = (if 0 \<le> y then NInf else PInf)"
| "fdiv PInf PInf = NaN"
| "fdiv PInf NInf = NaN"
| "fdiv NInf PInf = NaN"
| "fdiv NInf NInf = NaN"

text \<open>The comparisons \<open><\<close>, \<open>>\<close>, \<open><=\<close>: false whenever an operand is NaN.\<close>

fun flt :: "num \<Rightarrow> num \<Rightarrow> bool" where
  "flt (Num x) (Num y) = (x < y)"
| "flt NaN b = False"
| "flt a NaN = False"
| "flt a NInf = False"
| "flt PInf b = False"
| "flt NInf b = True"
| "flt a PInf = True"

definition fgt :: "num \<Rightarrow> num \<Rightarrow> bool" where
  "fgt a b = flt b a"

fun fle :: "num \<Rightarrow> num \<Rightarrow> bool" where
  "fle (Num x) (Num y) = (x \<le> y)"
| "fle NaN b = False"
| "fle a NaN = False"
| "fle NInf b = True"
| "fle a PInf = True"
| "fle a NInf = False"
| "fle PInf b = False"

text \<open>
  \<open>Math.max\<close> and \<open>Math.min\<close> of two numbers (NaN when an argument is NaN),
  \<open>Math.floor\<close>, \<open>Math.ceil\<close> and \<open>Math.round\<close> (the nearest integer, a half upwards;
  the three are exact on doubles).
\<close>

definition fmax :: "num \<Rightarrow> num \<Rightarrow> num" where
  "fmax a b = (if a = NaN \<or> b = NaN then NaN else if flt a b then b else a)"

definition fmin :: "num \<Rightarrow> num \<Rightarrow> num" where
  "fmin a b = (if a = NaN \<or> b = NaN then NaN else if flt b a then b else a)"

fun ffloor :: "num \<Rightarrow> num" where
  "ffloor (Num x) = Num (real_of_int \<lfloor>x\<rfloor>)"
| "ffloor a = a"

fun fceil :: "num \<Rightarrow> num" where
  "fceil (Num x) = Num (real_of_int \<lceil>x\<rceil>)"
| "fceil a = a"

fun fround :: "num \<Rightarrow> num" where
  "fround (Num x) = Num (real_of_int \<lfloor>x + 1 / 2\<rfloor>)"
| "fround a = a"

text \<open>
  A loop counter or an array length \<open>n\<close> is the number \<open>Num (real n)\<close>: the integers
  up to \<open>2^53\<close> are doubles, and an array has less than \<open>2^32\<close> elements.

  \<open>sumFrom acc xs\<close> is the loop \<open>for (x of xs) acc += x\<close>.
\<close>

definition sumFrom :: "num \<Rightarrow> num list \<Rightarrow> num" where
  "sumFrom acc xs = foldl fadd acc xs"

subsection \<open>Arrays\<close>

text \<open>
  Arrays are lists. A read \<open>a[i] ?? d\<close> is \<open>nth_or d a i\<close>; a read that may give
  \<open>undefined\<close> is \<open>nth_opt a i\<close>. Where \<open>undefined\<close> enters an arithmetic operation it is
  converted to NaN: \<open>nth_or NaN a i\<close>. \<open>v || 0\<close> on a number replaces NaN (and 0) by 0.
\<close>

definition nth_or :: "'a \<Rightarrow> 'a list \<Rightarrow> nat \<Rightarrow> 'a" where
  "nth_or d xs i = (if i < length xs then xs ! i else d)"

definition nth_opt :: "'a list \<Rightarrow> nat \<Rightarrow> 'a option" where
  "nth_opt xs i = (if i < length xs then Some (xs ! i) else None)"

definition or_zero :: "num \<Rightarrow> num" where
  "or_zero v = (if v = NaN then Num 0 else v)"

text \<open>
  The read \<open>a[v]\<close> at an index \<open>v\<close> that was computed as a number; \<open>undefined\<close> (here
  NaN, it is only subtracted) unless \<open>v\<close> is an integer within the array.
\<close>

fun read_at :: "num list \<Rightarrow> num \<Rightarrow> num" where
  "read_at xs (Num v) =
     (if 0 \<le> v \<and> v = real_of_int \<lfloor>v\<rfloor> then nth_or NaN xs (nat \<lfloor>v\<rfloor>) else NaN)"
| "read_at xs a = NaN"

section \<open>Data model\<close>



record Mock =
  mock_x :: "num list"
  mock_series :: "num list list"

text \<open>
  The errors the modelled code throws: the two \<open>throw new Error\<close> of transformToMock,
  and the RangeError of \<open>Array.from\<close> on an infinite length.
\<close>

datatype error =
    InvalidMissingValuesSeries
  | InvalidSeriesLength
  | RangeError

section \<open>Normalizer: transformToMock\<close>




section \<open>Smoothing: movingAverage\<close>

text \<open>
  \<open>pref\<close> of the source: \<open>pref[0] = 0\<close>, \<open>pref[i + 1] = pref[i] + arr[i]\<close>.
  \<open>prefix_sums acc arr\<close> is the array from an entry \<open>acc\<close> on.
\<close>

fun prefix_sums :: "num \<Rightarrow> num list \<Rightarrow> num list" where
  "prefix_sums acc [] = [acc]"
| "prefix_sums acc (v # arr) = acc # prefix_sums (fadd acc v) arr"

definition movingAverage :: "num list \<Rightarrow> num \<Rightarrow> num list" where
  "movingAverage arr windowSamples =
     (let n = length arr in
      if fle windowSamples (Num 1) then arr
      else
        let half = ffloor (fdiv windowSamples (Num 2));
            pref = prefix_sums (Num 0) arr
        in map (\<lambda>i.
                 let start = fmax (Num 0) (fsub (Num (real i)) half);
                     end' = fmin (Num (real n - 1)) (fadd (Num (real i)) half);
                     sum = fsub (read_at pref (fadd end' (Num 1))) (read_at pref start)
                 in fdiv sum (fadd (fsub end' start) (Num 1)))
               [0..<n])"

section \<open>Binning Engine: aggregateBins\<close>

text \<open>
  The sample indices the loop \<open>for (i = start; i < end; i++)\<close> visits, for bounds that
  were computed as numbers: none when a bound is NaN. (\<open>start\<close> is never \<open>-Infinity\<close> and
  \<open>end\<close> never \<open>Infinity\<close>, both being clamped.)
\<close>

fun loopRange :: "num \<Rightarrow> num \<Rightarrow> nat list" where
  "loopRange (Num a) (Num e) = map nat [\<lceil>a\<rceil>..\<lceil>e\<rceil> - 1]"
| "loopRange a e = []"

text \<open>
  The accumulated entry \<open>bins[b][s]\<close> before normalisation: from 0, the values
  \<open>Math.max(0, data.series[s][i] ?? 0)\<close> added for \<open>i = start, ..., end - 1\<close> in turn.
\<close>

definition binRaw :: "Mock \<Rightarrow> nat list \<Rightarrow> nat \<Rightarrow> num" where
  "binRaw data window s =
     sumFrom (Num 0) (map (\<lambda>i. fmax (Num 0) (nth_or (Num 0) (mock_series data ! s) i)) window)"

definition aggregateBin :: "Mock \<Rightarrow> nat \<Rightarrow> bool \<Rightarrow> nat \<Rightarrow> num list" where
  "aggregateBin data columns shiftHalfBin b =
     (let sCount = length (mock_series data);
          points = length (mock_x data);
          binSize = fdiv (Num (real points)) (Num (real columns));
          offset = (if shiftHalfBin then fmul binSize (Num (1 / 2)) else Num 0);
          startF = fadd (fmul (Num (real b)) binSize) offset;
          endF = fadd (fmul (Num (real b + 1)) binSize) offset;
          start = fmax (Num 0) (ffloor startF);
          end' = fmin (Num (real points)) (fceil endF);
          acc = map (\<lambda>s. binRaw data (loopRange start end') s) [0..<sCount];
          sum = sumFrom (Num 0) acc
      in if fle sum (Num 0) then map (\<lambda>s. fdiv (Num 1) (Num (real sCount))) [0..<sCount]
         else map (\<lambda>v. fdiv v sum) acc)"

definition aggregateBins :: "Mock \<Rightarrow> nat \<Rightarrow> bool \<Rightarrow> num list list" where
  "aggregateBins data columns shiftHalfBin =
     map (\<lambda>b. aggregateBin data columns shiftHalfBin b) [0..<columns]"

section \<open>Global Order Resolver: computeGlobalOrder\<close>

text \<open>
  \<open>addBins\<close>: \<open>totals[s] += col[s] || 0\<close> for every column of the table, starting
  from the totals so far.
\<close>

definition addBins :: "nat \<Rightarrow> num list list \<Rightarrow> num list \<Rightarrow> num list" where
  "addBins sCount bins totals =
     fold (\<lambda>col tot. map (\<lambda>s. fadd (tot ! s) (or_zero (nth_or (Num 0) col s))) [0..<sCount])
       bins totals"

text \<open>
  \<open>Array.prototype.sort\<close> with a comparator is a built-in of the language, not code of
  the repository. ECMAScript specifies it as a stable sort: \<open>a\<close> stays before \<open>b\<close>
  unless the comparator is positive on \<open>(a, b)\<close>, a comparator value NaN counting as 0.
  It is modelled as the stable insertion sort.
\<close>

fun insert_cmp :: "('a \<Rightarrow> 'a \<Rightarrow> num) \<Rightarrow> 'a \<Rightarrow> 'a list \<Rightarrow> 'a list" where
  "insert_cmp cmp a [] = [a]"
| "insert_cmp cmp a (b # bs) =
     (if fgt (cmp a b) (Num 0) then b # insert_cmp cmp a bs else a # b # bs)"

definition array_sort :: "('a \<Rightarrow> 'a \<Rightarrow> num) \<Rightarrow> 'a list \<Rightarrow> 'a list" where
  "array_sort cmp xs = foldr (insert_cmp cmp) xs []"

definition seriesTotals :: "num list list \<Rightarrow> num list list \<Rightarrow> nat \<Rightarrow> num list" where
  "seriesTotals binsEven binsOdd sCount =
     addBins sCount binsOdd (addBins sCount binsEven (replicate sCount (Num 0)))"

definition computeGlobalOrder :: "num list list \<Rightarrow> num list list \<Rightarrow> nat \<Rightarrow> nat list" where
  "computeGlobalOrder binsEven binsOdd sCount =
     (let totals = seriesTotals binsEven binsOdd sCount in
      array_sort (\<lambda>a b. fsub (totals ! b) (totals ! a)) [0..<sCount])"

section \<open>Allocation Engine: buildAllocations\<close>

text \<open>
  \<open>raw\<close> and \<open>shares\<close>: the column clamped to \<open>\<ge> 0\<close> over the indices \<open>[0, sCount)\<close>
  and normalised defensively.
\<close>

definition columnShares :: "num list \<Rightarrow> nat \<Rightarrow> num list" where
  "columnShares distCol sCount =
     (let raw = map (\<lambda>i. fmax (Num 0) (nth_or (Num 0) distCol i)) [0..<sCount];
          sum = sumFrom (Num 0) raw
      in if fgt sum (Num 0) then map (\<lambda>v. fdiv v sum) raw
         else replicate sCount (fdiv (Num 1) (Num (real (max 1 sCount)))))"

text \<open>The loop \<open>acc += sharesOrdered[i]; cum[i] = acc\<close>, from the accumulator \<open>acc\<close> on.\<close>

fun cumulative :: "num \<Rightarrow> num list \<Rightarrow> num list" where
  "cumulative acc [] = []"
| "cumulative acc (v # vs) = fadd acc v # cumulative (fadd acc v) vs"

text \<open>
  \<open>cum\<close> of the source, with the guard \<open>cum[sCount - 1] = 1\<close>. \<open>shares[s]\<close> is
  \<open>undefined\<close> when an entry \<open>s\<close> of \<open>order\<close> is not an index of \<open>shares\<close>; adding it makes
  the accumulator NaN. For \<open>sCount = 0\<close> the assignment sets the property \<open>-1\<close> of an
  empty array and no element.
\<close>

definition columnCum :: "num list \<Rightarrow> nat list \<Rightarrow> num list" where
  "columnCum distCol order =
     (let sCount = length order;
          shares = columnShares distCol sCount;
          sharesOrdered = map (\<lambda>s. nth_or NaN shares s) order;
          cum = cumulative (Num 0) sharesOrdered
      in if sCount = 0 then cum else cum[sCount - 1 := Num 1])"

text \<open>\<open>while (k < sCount - 1 && yFromBottom > cum[k]) k++\<close>, from \<open>k\<close> on.\<close>

function pickBand :: "num list \<Rightarrow> nat \<Rightarrow> num \<Rightarrow> nat \<Rightarrow> nat" where
  "pickBand cum sCount yFromBottom k =
     (if int k < int sCount - 1 \<and> fgt yFromBottom (cum ! k)
      then pickBand cum sCount yFromBottom (Suc k) else k)"
  by pat_completeness auto
termination
  by (relation "measure (\<lambda>(cum, sCount, y, k). sCount - k)") auto

declare pickBand.simps [simp del]

text \<open>
  \<open>yFromBottom\<close> of row slot \<open>r\<close>: \<open>1 - (r + 0.5) / Math.max(1, rowsForParity)\<close>, every
  operation rounded.
\<close>

definition slotPosition :: "nat \<Rightarrow> nat \<Rightarrow> num" where
  "slotPosition rowsForParity r =
     (let yFromTop = fdiv (fadd (Num (real r)) (Num (1 / 2))) (Num (real (max 1 rowsForParity)))
      in fsub (Num 1) yFromTop)"

definition rowSlot :: "num list \<Rightarrow> nat list \<Rightarrow> nat \<Rightarrow> nat \<Rightarrow> nat option" where
  "rowSlot cum order rowsForParity r =
     (let yFromBottom = slotPosition rowsForParity r;
          k = pickBand cum (length order) yFromBottom 0
      in nth_opt order k)"

definition columnAllocation :: "num list \<Rightarrow> nat \<Rightarrow> nat list \<Rightarrow> nat option list" where
  "columnAllocation distCol rowsForParity order =
     (let cum = columnCum distCol order in
      map (\<lambda>r. rowSlot cum order rowsForParity r) [0..<rowsForParity])"

text \<open>
  An entry of the result is the series of the slot, or \<open>None\<close> where the source stores
  \<open>undefined\<close> (\<open>order[k]\<close> on an empty \<open>order\<close>).
\<close>

definition buildAllocations :: "num list list \<Rightarrow> nat \<Rightarrow> nat list \<Rightarrow> nat option list list" where
  "buildAllocations distTable rowsForParity order =
     map (\<lambda>distCol. columnAllocation distCol rowsForParity order) distTable"

section \<open>Hex cells: hexPolygon, pointInPoly\<close>

text \<open>
  Positions on the canvas (the grid of hexagon centres, the vertices of the hexagons, the
  pointer) are modelled as exact reals, not as doubles: they are built with
  \<open>Math.sqrt\<close>, \<open>Math.cos\<close> and \<open>Math.sin\<close>, whose results the language leaves to the
  implementation. Shares, totals and counts are doubles (\<open>num\<close>).

  \<open>HexCell\<close> of the source. The bounding box is computed from
  \<open>Infinity\<close> and \<open>-Infinity\<close>, so its fields are positions extended by the two
  infinities.
\<close>

datatype bound = NegInfinity | Finite real | PosInfinity

text \<open>\<open>v < b\<close> and \<open>v > b\<close> for a number \<open>v\<close> and a bound \<open>b\<close>.\<close>

fun below :: "real \<Rightarrow> bound \<Rightarrow> bool" where
  "below v NegInfinity = False"
| "below v (Finite u) = (v < u)"
| "below v PosInfinity = True"

fun above :: "real \<Rightarrow> bound \<Rightarrow> bool" where
  "above v NegInfinity = True"
| "above v (Finite u) = (v > u)"
| "above v PosInfinity = False"

record BBox =
  minX :: bound
  minY :: bound
  maxX :: bound
  maxY :: bound

record HexCell =
  cell_poly :: "(real \<times> real) list"
  cell_cx :: real
  cell_cy :: real
  cell_series :: nat
  cell_counts :: "num list"
  cell_samples :: num
  cell_bbox :: "BBox option"

definition HEX_GAP :: real where
  "HEX_GAP = 1 / 2"

definition hexPolygon :: "real \<Rightarrow> real \<Rightarrow> real \<Rightarrow> (real \<times> real) list" where
  "hexPolygon cx cy r =
     (let innerR = max 0 (r - HEX_GAP) in
      map (\<lambda>i. let angle = ((60 * real i - 30) * pi) / 180
               in (cx + innerR * cos angle, cy + innerR * sin angle))
          [0..<6])"

text \<open>
  The test of one edge in pointInPoly, between the vertices \<open>poly[i] = (xi, yi)\<close> and
  \<open>poly[j] = (xj, yj)\<close>. The quotient is evaluated only when the first conjunct holds,
  and then \<open>yj \<noteq> yi\<close>.
\<close>

definition edgeIntersect :: "real \<Rightarrow> real \<Rightarrow> real \<times> real \<Rightarrow> real \<times> real \<Rightarrow> bool" where
  "edgeIntersect x y p_i p_j =
     (case p_i of (xi, yi) \<Rightarrow> case p_j of (xj, yj) \<Rightarrow>
        ((yi > y) \<noteq> (yj > y)) \<and> x < ((xj - xi) * (y - yi)) / (yj - yi) + xi)"

text \<open>
  The loop \<open>for (i = 0, j = poly.length - 1; i < poly.length; j = i++)\<close>: the vertices
  still to visit, with the vertex \<open>poly[j]\<close> visited before them.
\<close>

fun pointInPolyLoop :: "real \<Rightarrow> real \<Rightarrow> real \<times> real \<Rightarrow> (real \<times> real) list \<Rightarrow> bool \<Rightarrow> bool" where
  "pointInPolyLoop x y p_j [] inside = inside"
| "pointInPolyLoop x y p_j (p_i # rest) inside =
     pointInPolyLoop x y p_i rest (if edgeIntersect x y p_i p_j then \<not> inside else inside)"

definition pointInPoly :: "real \<Rightarrow> real \<Rightarrow> (real \<times> real) list \<Rightarrow> bool" where
  "pointInPoly x y poly =
     (if poly = [] then False else pointInPolyLoop x y (last poly) poly False)"

text \<open>
  The bounding box render computes for a polygon: four running bounds, updated vertex by
  vertex.
\<close>

definition bboxStep :: "real \<times> real \<Rightarrow> BBox \<Rightarrow> BBox" where
  "bboxStep p b =
     (case p of (px, py) \<Rightarrow>
        \<lparr>minX = (if below px (minX b) then Finite px else minX b),
         minY = (if below py (minY b) then Finite py else minY b),
         maxX = (if above px (maxX b) then Finite px else maxX b),
         maxY = (if above py (maxY b) then Finite py else maxY b)\<rparr>)"

definition polyBBox :: "(real \<times> real) list \<Rightarrow> BBox" where
  "polyBBox poly =
     fold bboxStep poly
       \<lparr>minX = PosInfinity, minY = PosInfinity, maxX = NegInfinity, maxY = NegInfinity\<rparr>"

section \<open>The render cycle\<close>

text \<open>
  The module-level variables render reads and writes, and the values it reads from the
  page: the size of the canvas and the two sliders, already parsed to integers
  (\<open>parseInt\<close> giving NaN is outside the model). Drawing on the canvas is not modelled.
\<close>

record Plot =
  plot_left :: real
  plot_top :: real
  plot_right :: real
  plot_bottom :: real

text \<open>
  \<open>cachedColors\<close> always is \<open>getColors\<close> of its own length; the state keeps that length
  (\<open>cachedColorCount\<close>).
\<close>

record AppState =
  graphData :: "Mock option"
  showHex :: bool
  userOrder :: "nat list option"
  hexCells :: "HexCell list"
  lastPlot :: "Plot option"
  cachedColorCount :: nat
  clientWidth :: real
  clientHeight :: real
  hexSize :: int
  smoothPercent :: int

text \<open>The smoothing step of render (\<open>smoothedGraph\<close>).\<close>

definition smoothGraph :: "int \<Rightarrow> Mock \<Rightarrow> Mock" where
  "smoothGraph percent g =
     (if percent > 2 then
        let smoothWindowFrac = fdiv (Num (real_of_int percent)) (Num 100);
            windowSamples =
              fmax (Num 1) (fround (fmul (Num (real (length (mock_x g)))) smoothWindowFrac))
        in \<lparr>mock_x = mock_x g,
            mock_series = map (\<lambda>s. movingAverage s windowSamples) (mock_series g)\<rparr>
      else g)"

text \<open>
  \<open>activeOrder\<close>: \<open>userOrder && userOrder.length === computedGlobalOrder.length ?
  userOrder : computedGlobalOrder\<close>. An array, also an empty one, is truthy.
\<close>

definition activeOrder :: "nat list option \<Rightarrow> nat list \<Rightarrow> nat list" where
  "activeOrder uo computedGlobalOrder =
     (case uo of
        None \<Rightarrow> computedGlobalOrder
      | Some u \<Rightarrow> if length u = length computedGlobalOrder then u else computedGlobalOrder)"

text \<open>An entry of buildCellMap's result.\<close>

record MapCell =
  map_x :: real
  map_y :: real
  map_series :: nat
  map_col :: nat

text \<open>\<open>allocTable[col]?.[rowInParity] ?? 0\<close>.\<close>

definition chosenSeries :: "nat option list list \<Rightarrow> nat \<Rightarrow> nat \<Rightarrow> nat" where
  "chosenSeries allocTable col rowInParity =
     (case nth_opt allocTable col of
        None \<Rightarrow> 0
      | Some colAlloc \<Rightarrow>
          (case nth_opt colAlloc rowInParity of
             None \<Rightarrow> 0
           | Some None \<Rightarrow> 0
           | Some (Some s) \<Rightarrow> s))"

text \<open>
  buildCellMap; its first parameter here is \<open>canvas.clientWidth\<close>, which the source
  reads from the page.
\<close>

definition buildCellRow ::
  "real \<Rightarrow> nat \<Rightarrow> real \<Rightarrow> real \<Rightarrow> real \<Rightarrow> real \<Rightarrow>
   nat option list list \<Rightarrow> nat option list list \<Rightarrow> nat \<Rightarrow> MapCell list" where
  "buildCellRow canvasWidth cols startXEven hexWidth firstY vertStep allocEven allocOdd row =
     (let y = firstY + real row * vertStep;
          isEven = (row mod 2 = 0);
          startX = (if isEven then startXEven else startXEven + hexWidth / 2);
          rowInParity = row div 2;
          allocTable = (if isEven then allocEven else allocOdd)
      in concat (map (\<lambda>col.
            let x = startX + real col * hexWidth in
            if x < 20 + hexWidth * (1 / 4) \<or> x > (canvasWidth - 20) - hexWidth * (1 / 4) then []
            else [\<lparr>map_x = x, map_y = y,
                   map_series = chosenSeries allocTable col rowInParity, map_col = col\<rparr>])
          [0..<cols]))"

definition buildCellMap ::
  "real \<Rightarrow> nat \<Rightarrow> nat \<Rightarrow> real \<Rightarrow> real \<Rightarrow> real \<Rightarrow> real \<Rightarrow>
   nat option list list \<Rightarrow> nat option list list \<Rightarrow> MapCell list list" where
  "buildCellMap canvasWidth cols rows startXEven hexWidth firstY vertStep allocEven allocOdd =
     map (buildCellRow canvasWidth cols startXEven hexWidth firstY vertStep allocEven allocOdd)
       [0..<rows]"

text \<open>
  The hex cell render pushes for an entry \<open>c\<close> of row \<open>r\<close> of the cell map:
  \<open>vv = Math.max(0, dist[s] || 0)\<close>, \<open>ct = Math.round(vv * 1000)\<close>, \<open>samples += ct\<close>.
\<close>

definition makeHexCell ::
  "num list list \<Rightarrow> num list list \<Rightarrow> nat \<Rightarrow> real \<Rightarrow> nat \<Rightarrow> MapCell \<Rightarrow> HexCell" where
  "makeHexCell binsEven binsOdd seriesLen hexR r c =
     (let isEven = (r mod 2 = 0);
          distTable = (if isEven then binsEven else binsOdd);
          distCol = nth_or (replicate seriesLen (Num 0)) distTable (map_col c);
          counts = map (\<lambda>s. fround (fmul (fmax (Num 0) (or_zero (nth_or (Num 0) distCol s)))
                                          (Num 1000)))
                     [0..<seriesLen];
          samples = sumFrom (Num 0) counts;
          poly = hexPolygon (map_x c) (map_y c) hexR
      in \<lparr>cell_poly = poly, cell_cx = map_x c, cell_cy = map_y c, cell_series = map_series c,
          cell_counts = counts, cell_samples = samples, cell_bbox = Some (polyBBox poly)\<rparr>)"

text \<open>
  The local constants of render in the hex view, each as a function of the state (and
  of the share matrix \<open>g\<close> in \<open>graphData\<close>), named \<open>render_\<close> and the name it has in the
  source.
\<close>

definition render_hexR :: "AppState \<Rightarrow> real" where
  "render_hexR st = real_of_int (hexSize st)"

definition render_plot :: "AppState \<Rightarrow> Plot" where
  "render_plot st =
     \<lparr>plot_left = 20, plot_top = 20,
      plot_right = clientWidth st - 20, plot_bottom = clientHeight st - 20\<rparr>"

definition render_hexWidth :: "AppState \<Rightarrow> real" where
  "render_hexWidth st = sqrt 3 * render_hexR st"

definition render_vertStep :: "AppState \<Rightarrow> real" where
  "render_vertStep st = (3 / 2) * render_hexR st"

definition render_plotW :: "AppState \<Rightarrow> real" where
  "render_plotW st = max 1 (plot_right (render_plot st) - plot_left (render_plot st))"

definition render_cols :: "AppState \<Rightarrow> nat" where
  "render_cols st = nat (max 1 \<lfloor>render_plotW st / render_hexWidth st\<rfloor>)"

definition render_smoothedGraph :: "AppState \<Rightarrow> Mock \<Rightarrow> Mock" where
  "render_smoothedGraph st g = smoothGraph (smoothPercent st) g"

definition render_binsEven :: "AppState \<Rightarrow> Mock \<Rightarrow> num list list" where
  "render_binsEven st g = aggregateBins (render_smoothedGraph st g) (render_cols st) False"

definition render_binsOdd :: "AppState \<Rightarrow> Mock \<Rightarrow> num list list" where
  "render_binsOdd st g = aggregateBins (render_smoothedGraph st g) (render_cols st) True"

definition render_firstY :: "AppState \<Rightarrow> real" where
  "render_firstY st = plot_top (render_plot st) + render_hexR st"

definition render_lastY :: "AppState \<Rightarrow> real" where
  "render_lastY st = plot_bottom (render_plot st) - render_hexR st"

definition render_rows :: "AppState \<Rightarrow> nat" where
  "render_rows st =
     nat (max 1 (\<lfloor>(render_lastY st - render_firstY st) / render_vertStep st\<rfloor> + 1))"

definition render_evenRowCount :: "AppState \<Rightarrow> nat" where
  "render_evenRowCount st = nat \<lceil>real (render_rows st) / 2\<rceil>"

definition render_oddRowCount :: "AppState \<Rightarrow> nat" where
  "render_oddRowCount st = nat \<lfloor>real (render_rows st) / 2\<rfloor>"

definition render_computedGlobalOrder :: "AppState \<Rightarrow> Mock \<Rightarrow> nat list" where
  "render_computedGlobalOrder st g =
     computeGlobalOrder (render_binsEven st g) (render_binsOdd st g) (length (mock_series g))"

definition render_activeOrder :: "AppState \<Rightarrow> Mock \<Rightarrow> nat list" where
  "render_activeOrder st g = activeOrder (userOrder st) (render_computedGlobalOrder st g)"

definition render_allocEven :: "AppState \<Rightarrow> Mock \<Rightarrow> nat option list list" where
  "render_allocEven st g =
     buildAllocations (render_binsEven st g) (render_evenRowCount st) (render_activeOrder st g)"

definition render_allocOdd :: "AppState \<Rightarrow> Mock \<Rightarrow> nat option list list" where
  "render_allocOdd st g =
     buildAllocations (render_binsOdd st g) (render_oddRowCount st) (render_activeOrder st g)"

definition render_startXEven :: "AppState \<Rightarrow> real" where
  "render_startXEven st = plot_left (render_plot st) + render_hexWidth st / 2"

definition render_cellMap :: "AppState \<Rightarrow> Mock \<Rightarrow> MapCell list list" where
  "render_cellMap st g =
     buildCellMap (clientWidth st) (render_cols st) (render_rows st) (render_startXEven st)
       (render_hexWidth st) (render_firstY st) (render_vertStep st)
       (render_allocEven st g) (render_allocOdd st g)"

text \<open>
  The cells pushed to \<open>hexCells\<close> by the loops over the rows \<open>r\<close> of the cell map and
  the entries of each row.
\<close>

definition render_hexCells :: "AppState \<Rightarrow> Mock \<Rightarrow> HexCell list" where
  "render_hexCells st g =
     concat (map (\<lambda>r. map (makeHexCell (render_binsEven st g) (render_binsOdd st g)
                           (length (mock_series g)) (render_hexR st) r)
                      (render_cellMap st g ! r))
               [0..<length (render_cellMap st g)])"

text \<open>
  render. Without data it returns at once. In the stacked view it clears the hex cells.
  In the hex view with \<open>hexSize = 0\<close> the column count is \<open>Infinity\<close> and
  \<open>Array.from\<close> throws a RangeError (after \<open>lastPlot\<close> and \<open>hexCells\<close> were reset);
  the model returns the error. Array lengths are otherwise unbounded in the model.
\<close>

definition render :: "AppState \<Rightarrow> error + AppState" where
  "render st =
     (case graphData st of
        None \<Rightarrow> Inr st
      | Some g \<Rightarrow>
          let st1 = st\<lparr>cachedColorCount := length (mock_series g)\<rparr> in
          if \<not> showHex st then Inr (st1\<lparr>hexCells := []\<rparr>)
          else if hexSize st = 0 then Inl RangeError
          else
            Inr (st1\<lparr>lastPlot := Some (render_plot st), hexCells := render_hexCells st g\<rparr>))"

text \<open>The click handler of the reset button (before the render it schedules).\<close>

definition resetOrder :: "AppState \<Rightarrow> AppState" where
  "resetOrder st = st\<lparr>userOrder := None\<rparr>"

text \<open>
  The scan of the mousemove handler over \<open>hexCells\<close>: cells whose bounding box excludes
  the pointer are skipped, the first remaining cell that contains it is the hit.
\<close>

definition outsideBBox :: "real \<Rightarrow> real \<Rightarrow> BBox option \<Rightarrow> bool" where
  "outsideBBox mx my bb =
     (case bb of
        None \<Rightarrow> False
      | Some b \<Rightarrow> below mx (minX b) \<or> above mx (maxX b) \<or> below my (minY b) \<or> above my (maxY b))"

fun findHit :: "real \<Rightarrow> real \<Rightarrow> HexCell list \<Rightarrow> HexCell option" where
  "findHit mx my [] = None"
| "findHit mx my (c # cells) =
     (if outsideBBox mx my (cell_bbox c) then findHit mx my cells
      else if pointInPoly mx my (cell_poly c) then Some c
      else findHit mx my cells)"

text \<open>
  The hit of the mousemove handler at the pointer \<open>(mx, my)\<close>: none without data or in
  the stacked view.
\<close>

definition mousemoveHit :: "AppState \<Rightarrow> real \<Rightarrow> real \<Rightarrow> HexCell option" where
  "mousemoveHit st mx my =
     (if graphData st = None \<or> \<not> showHex st then None else findHit mx my (hexCells st))"

section \<open>Vocabulary of the specification\<close>

text \<open>
  The definitions of this section follow the words of the specification (spec.md), not
  the code: the claims compare them with the functions above. Where the specification
  writes a formula, it is read in the arithmetic of the program (every operation
  rounded to a double).
\<close>

text \<open>A Global Order: a permutation of the series indices \<open>[0, sCount)\<close>.\<close>

definition isPermutation :: "nat list \<Rightarrow> bool" where
  "isPermutation order = (distinct order \<and> list_all (\<lambda>s. s < length order) order)"

text \<open>
  The cumulative sum of shares reordered by \<open>order\<close> (bottom to top), its final entry
  forced to 1: entry \<open>k\<close> is \<open>shares[order[0]] + ... + shares[order[k]]\<close>, added from
  the left.
\<close>

definition cumulativeShare :: "num list \<Rightarrow> nat list \<Rightarrow> nat \<Rightarrow> num" where
  "cumulativeShare shares order k =
     (if Suc k = length order then Num 1
      else sumFrom (Num 0) (map (\<lambda>j. shares ! (order ! j)) [0..<Suc k]))"

text \<open>
  The normalised vertical position of row slot \<open>r\<close>, from the bottom:
  \<open>1 - (r + 0.5) / rows\<close>.
\<close>

definition yFromBottom :: "nat \<Rightarrow> nat \<Rightarrow> num" where
  "yFromBottom rows r = fsub (Num 1) (fdiv (fadd (Num (real r)) (Num (1 / 2))) (Num (real rows)))"

text \<open>The position of a series in an order (its first occurrence).\<close>

fun positionIn :: "nat list \<Rightarrow> nat \<Rightarrow> nat option" where
  "positionIn [] s = None"
| "positionIn (a # as) s = (if a = s then Some 0 else map_option Suc (positionIn as s))"




text \<open>The hit-test without the bounding boxes: a scan by the point-in-polygon test alone.\<close>

fun findHitByPolygon :: "real \<Rightarrow> real \<Rightarrow> HexCell list \<Rightarrow> HexCell option" where
  "findHitByPolygon mx my [] = None"
| "findHitByPolygon mx my (c # cells) =
     (if pointInPoly mx my (cell_poly c) then Some c else findHitByPolygon mx my cells)"

text \<open>
  The hex cells of the grid of a state when both parity tables are allocated with
  \<open>order\<close>: the cell map built from the two allocations, and for each of its entries
  the cell with that entry's centre and series.
\<close>

definition cellsWithOrder :: "AppState \<Rightarrow> Mock \<Rightarrow> nat list \<Rightarrow> HexCell list" where
  "cellsWithOrder st g order =
     (let allocEven = buildAllocations (render_binsEven st g) (render_evenRowCount st) order;
          allocOdd = buildAllocations (render_binsOdd st g) (render_oddRowCount st) order;
          cellMap = buildCellMap (clientWidth st) (render_cols st) (render_rows st)
                      (render_startXEven st) (render_hexWidth st) (render_firstY st)
                      (render_vertStep st) allocEven allocOdd
      in concat (map (\<lambda>r. map (makeHexCell (render_binsEven st g) (render_binsOdd st g)
                                 (length (mock_series g)) (render_hexR st) r)
                            (cellMap ! r))
                     [0..<length cellMap]))"

section \<open>A worked example\<close>

text \<open>
  Three series with the shares \<open>3/8\<close>, \<open>1/8\<close>, \<open>1/2\<close> at each of three samples.
\<close>

definition exampleShares :: Mock where
  "exampleShares =
     \<lparr>mock_x = [Num 0, Num 1, Num 2],
      mock_series = [[Num (3 / 8), Num (3 / 8), Num (3 / 8)],
                     [Num (1 / 8), Num (1 / 8), Num (1 / 8)],
                     [Num (1 / 2), Num (1 / 2), Num (1 / 2)]]\<rparr>"

section \<open>Facts about rounding\<close>

lemma rne_of_int [simp]: "rne (real_of_int k) = k"
  by (simp add: rne_def)

lemma rne_error: "\<bar>real_of_int (rne m) - m\<bar> \<le> 1 / 2"
  unfolding rne_def Let_def by (auto simp: abs_le_iff)

lemma rne_mono:
  assumes "a \<le> b"
  shows "rne a \<le> rne b"
proof (cases "\<lfloor>a\<rfloor> = \<lfloor>b\<rfloor>")
  case True
  with assms show ?thesis unfolding rne_def Let_def by auto
next
  case False
  with assms have lt: "\<lfloor>a\<rfloor> < \<lfloor>b\<rfloor>" using floor_mono [OF assms] by linarith
  have "rne a \<le> \<lfloor>a\<rfloor> + 1" unfolding rne_def Let_def by auto
  moreover have "\<lfloor>b\<rfloor> \<le> rne b" unfolding rne_def Let_def by auto
  ultimately show ?thesis using lt by linarith
qed

lemma rne_minus: "rne (- m) = - rne m"
proof (cases "m \<in> \<int>")
  case True
  then obtain k where "m = real_of_int k" by (auto elim: Ints_cases)
  then show ?thesis by (simp flip: of_int_minus)
next
  case False
  then have ne: "m \<noteq> real_of_int \<lfloor>m\<rfloor>" by (metis Ints_of_int)
  then have c: "\<lfloor>- m\<rfloor> = - \<lfloor>m\<rfloor> - 1" using ceiling_altdef [of m] by (simp add: ceiling_def)
  have fr: "m - real_of_int \<lfloor>m\<rfloor> \<noteq> 0" using False by (metis Ints_of_int eq_iff_diff_eq_0)
  show ?thesis unfolding rne_def Let_def c by (auto simp: algebra_simps)
qed

lemma ulp_pos [simp]: "0 < ulp x"
  by (simp add: ulp_def)

lemma ulp_neq0 [simp]: "ulp x \<noteq> 0"
  by (simp add: ulp_def)

lemma expo_minus [simp]: "expo (- x) = expo x"
  by (simp add: expo_def)

lemma ulp_minus [simp]: "ulp (- x) = ulp x"
  by (simp add: ulp_def)

lemma rnd_minus: "rnd (- x) = - rnd x"
  by (simp add: rnd_def rne_minus)

lemma rnd_0 [simp]: "rnd 0 = 0"
  using rne_of_int [of 0] by (simp add: rnd_def)

lemma rnd_error: "\<bar>rnd x - x\<bar> \<le> ulp x / 2"
proof -
  have "\<bar>real_of_int (rne (x / ulp x)) - x / ulp x\<bar> \<le> 1 / 2" by (rule rne_error)
  then have "\<bar>real_of_int (rne (x / ulp x)) - x / ulp x\<bar> * ulp x \<le> (1 / 2) * ulp x"
    by (intro mult_right_mono) (simp_all add: less_imp_le)
  moreover have "\<bar>real_of_int (rne (x / ulp x)) - x / ulp x\<bar> * ulp x
      = \<bar>(real_of_int (rne (x / ulp x)) - x / ulp x) * ulp x\<bar>"
    by (simp add: abs_mult less_imp_le)
  moreover have "(real_of_int (rne (x / ulp x)) - x / ulp x) * ulp x = rnd x - x"
    using ulp_pos [of x] by (simp add: rnd_def left_diff_distrib)
  ultimately show ?thesis by simp
qed

lemma expo_ge: "- 1022 \<le> expo x"
  by (simp add: expo_def)

lemma expo_upper:
  assumes "x \<noteq> 0"
  shows "\<bar>x\<bar> < 2 powr real_of_int (expo x + 1)"
proof -
  have "\<bar>x\<bar> < 2 powr real_of_int (\<lfloor>log 2 \<bar>x\<bar>\<rfloor> + 1)"
    using floor_log_eq_powr_iff [of "\<bar>x\<bar>" 2 "\<lfloor>log 2 \<bar>x\<bar>\<rfloor>"] assms by simp
  also have "\<dots> \<le> 2 powr real_of_int (expo x + 1)"
    by (rule powr_mono) (simp_all add: expo_def)
  finally show ?thesis .
qed

lemma expo_normal:
  assumes "2 powr (- 1022) \<le> \<bar>x\<bar>"
  shows "expo x = \<lfloor>log 2 \<bar>x\<bar>\<rfloor>" and "2 powr real_of_int (expo x) \<le> \<bar>x\<bar>"
proof -
  have pos: "0 < \<bar>x\<bar>" using assms by (smt (verit) powr_gt_zero)
  have "log 2 (2 powr (- 1022)) \<le> log 2 \<bar>x\<bar>"
    using assms by (intro log_mono) simp_all
  then have "- 1022 \<le> log 2 \<bar>x\<bar>" by simp
  then have "- 1022 \<le> \<lfloor>log 2 \<bar>x\<bar>\<rfloor>" by (simp add: le_floor_iff)
  then show e: "expo x = \<lfloor>log 2 \<bar>x\<bar>\<rfloor>" by (simp add: expo_def)
  show "2 powr real_of_int (expo x) \<le> \<bar>x\<bar>"
    unfolding e using floor_log_eq_powr_iff [of "\<bar>x\<bar>" 2 "\<lfloor>log 2 \<bar>x\<bar>\<rfloor>"] pos by simp
qed

lemma expo_mono:
  assumes "\<bar>x\<bar> \<le> \<bar>y\<bar>" and "x \<noteq> 0"
  shows "expo x \<le> expo y"
proof -
  have "log 2 \<bar>x\<bar> \<le> log 2 \<bar>y\<bar>" using assms by (intro log_mono) simp_all
  then have "\<lfloor>log 2 \<bar>x\<bar>\<rfloor> \<le> \<lfloor>log 2 \<bar>y\<bar>\<rfloor>" by (rule floor_mono)
  then show ?thesis by (simp add: expo_def)
qed

lemma two_powr_int: "0 \<le> k \<Longrightarrow> (2::real) powr real_of_int k = 2 ^ nat k"
  by (simp add: powr_int)

lemma ulp_times: "ulp x * 2 ^ 53 = 2 powr real_of_int (expo x + 1)"
proof -
  have "(2::real) ^ 53 = 2 powr real_of_int 53" by (subst two_powr_int) simp_all
  moreover have "real_of_int (expo x - 52) + real_of_int 53 = real_of_int (expo x + 1)" by simp
  ultimately show ?thesis unfolding ulp_def by (simp only: powr_add [symmetric])
qed

lemma ulp_times52: "ulp x * 2 ^ 52 = 2 powr real_of_int (expo x)"
proof -
  have "(2::real) ^ 52 = 2 powr real_of_int 52" by (subst two_powr_int) simp_all
  moreover have "real_of_int (expo x - 52) + real_of_int 52 = real_of_int (expo x)" by simp
  ultimately show ?thesis unfolding ulp_def by (simp only: powr_add [symmetric])
qed

lemma abs_div_ulp: "\<bar>x / ulp x\<bar> < 2 ^ 53"
proof (cases "x = 0")
  case True then show ?thesis by simp
next
  case False
  from expo_upper [OF this] have "\<bar>x\<bar> < ulp x * 2 ^ 53" by (simp only: ulp_times)
  then have "\<bar>x\<bar> / ulp x < 2 ^ 53"
    using ulp_pos [of x] by (simp only: pos_divide_less_eq mult.commute)
  moreover have "\<bar>x / ulp x\<bar> = \<bar>x\<bar> / ulp x"
    using ulp_pos [of x] by (simp only: abs_divide abs_of_pos)
  ultimately show ?thesis by (simp only:)
qed

lemma rne_bound: "\<bar>rne (x / ulp x)\<bar> \<le> 2 ^ 53"
proof -
  have c: "real_of_int (2 ^ 53) = 2 ^ 53" by simp
  from abs_div_ulp [of x] have a: "x / ulp x \<le> real_of_int (2 ^ 53)" and b: "real_of_int (- (2 ^ 53)) \<le> x / ulp x"
    unfolding of_int_minus c by linarith+
  from rne_mono [OF a] rne_mono [OF b] show ?thesis
    unfolding rne_of_int by linarith
qed

lemma rnd_nonneg: "0 \<le> x \<Longrightarrow> 0 \<le> rnd x"
proof -
  assume "0 \<le> x"
  then have "real_of_int 0 \<le> x / ulp x" by (simp add: less_imp_le)
  from rne_mono [OF this] have "0 \<le> rne (x / ulp x)" unfolding rne_of_int .
  then show ?thesis by (simp add: rnd_def less_imp_le)
qed

lemma rnd_upper: "rnd x \<le> 2 powr real_of_int (expo x + 1)"
proof -
  have c: "real_of_int (2 ^ 53) = 2 ^ 53" by simp
  from rne_bound [of x] have "rne (x / ulp x) \<le> 2 ^ 53" by linarith
  then have "real_of_int (rne (x / ulp x)) \<le> real_of_int (2 ^ 53)" by (simp only: of_int_le_iff)
  then have "real_of_int (rne (x / ulp x)) \<le> 2 ^ 53" by (simp only: c)
  then have "rnd x \<le> 2 ^ 53 * ulp x"
    unfolding rnd_def by (intro mult_right_mono) (simp_all add: less_imp_le)
  then show ?thesis by (simp only: ulp_times [symmetric] mult.commute)
qed

lemma rnd_lower:
  assumes "2 powr (- 1022) \<le> x"
  shows "2 powr real_of_int (expo x) \<le> rnd x"
proof -
  have x: "0 < x" using assms by (smt (verit) powr_gt_zero)
  have c: "real_of_int (2 ^ 52) = 2 ^ 52" by simp
  have ax: "\<bar>x\<bar> = x" using x by simp
  from expo_normal(2) [of x] assms have "ulp x * 2 ^ 52 \<le> x" by (simp only: ulp_times52 ax)
  then have "2 ^ 52 \<le> x / ulp x"
    using ulp_pos [of x] by (simp only: pos_le_divide_eq mult.commute)
  then have "real_of_int (2 ^ 52) \<le> x / ulp x" by (simp only: c)
  from rne_mono [OF this] have "2 ^ 52 \<le> rne (x / ulp x)" unfolding rne_of_int .
  then have "real_of_int (2 ^ 52) \<le> real_of_int (rne (x / ulp x))" by (simp only: of_int_le_iff)
  then have "(2::real) ^ 52 \<le> real_of_int (rne (x / ulp x))" by (simp only: c)
  then have "2 ^ 52 * ulp x \<le> rnd x"
    unfolding rnd_def by (intro mult_right_mono) (simp_all add: less_imp_le)
  then show ?thesis by (simp only: ulp_times52 [symmetric] mult.commute)
qed

lemma rnd_mono_nonneg:
  assumes "0 \<le> x" and "x \<le> y"
  shows "rnd x \<le> rnd y"
proof (cases "x = 0")
  case True
  then show ?thesis using rnd_nonneg [of y] assms by simp
next
  case False
  with assms have x: "0 < x" and y: "0 < y" by simp_all
  have le: "expo x \<le> expo y" using expo_mono [of x y] assms False by simp
  show ?thesis
  proof (cases "expo x = expo y")
    case True
    then have u: "ulp x = ulp y" by (simp add: ulp_def)
    have "x / ulp y \<le> y / ulp y" using assms by (simp add: divide_right_mono less_imp_le)
    from rne_mono [OF this] show ?thesis
      unfolding rnd_def u by (intro mult_right_mono) (simp_all add: less_imp_le)
  next
    case False
    with le have lt: "expo x + 1 \<le> expo y" by simp
    have "- 1022 < expo y" using lt expo_ge [of x] by linarith
    then have ey: "expo y = \<lfloor>log 2 \<bar>y\<bar>\<rfloor>" by (simp add: expo_def max_def split: if_splits)
    have "2 powr real_of_int (expo y) \<le> \<bar>y\<bar>"
      unfolding ey using floor_log_eq_powr_iff [of "\<bar>y\<bar>" 2 "\<lfloor>log 2 \<bar>y\<bar>\<rfloor>"] y by simp
    moreover have "(2::real) powr (- 1022) \<le> 2 powr real_of_int (expo y)"
      using expo_ge [of y] by (intro powr_mono) simp_all
    moreover have "\<bar>y\<bar> = y" using y by simp
    ultimately have "2 powr (- 1022) \<le> y" by linarith
    from rnd_lower [OF this] have "2 powr real_of_int (expo y) \<le> rnd y" .
    moreover have "rnd x \<le> 2 powr real_of_int (expo x + 1)" by (rule rnd_upper)
    moreover have "(2::real) powr real_of_int (expo x + 1) \<le> 2 powr real_of_int (expo y)"
      using lt by (intro powr_mono) simp_all
    ultimately show ?thesis by linarith
  qed
qed

lemma rnd_mono:
  assumes "x \<le> y"
  shows "rnd x \<le> rnd y"
proof -
  consider "0 \<le> x" | "y \<le> 0" | "x < 0" "0 < y" by linarith
  then show ?thesis
  proof cases
    case 1 then show ?thesis using assms by (rule rnd_mono_nonneg)
  next
    case 2
    then have "rnd (- y) \<le> rnd (- x)" using assms by (intro rnd_mono_nonneg) simp_all
    then show ?thesis by (simp add: rnd_minus)
  next
    case 3
    have "0 \<le> rnd (- x)" using 3 by (intro rnd_nonneg) simp
    moreover have "0 \<le> rnd y" using 3 by (intro rnd_nonneg) simp
    ultimately show ?thesis by (simp add: rnd_minus)
  qed
qed

lemma rnd_int_quot:
  assumes "x / ulp x = real_of_int k"
  shows "rnd x = x"
proof -
  have "rnd x = real_of_int k * ulp x" unfolding rnd_def assms rne_of_int ..
  also have "\<dots> = x" using assms [symmetric] by simp
  finally show ?thesis .
qed

lemma rnd_dyadic_lt:
  assumes m: "\<bar>m\<bar> < 2 ^ 53" and e: "- 1074 \<le> e"
  shows "rnd (real_of_int m * 2 powr real_of_int e) = real_of_int m * 2 powr real_of_int e"
proof (cases "m = 0")
  case True then show ?thesis by simp
next
  case False
  define z where "z = real_of_int m * 2 powr real_of_int e"
  have z0: "z \<noteq> 0" using False by (simp add: z_def)
  have az: "\<bar>z\<bar> = real_of_int \<bar>m\<bar> * 2 powr real_of_int e" by (simp add: z_def abs_mult)
  have c: "real_of_int (2 ^ 53) = 2 powr real_of_int 53" by (subst two_powr_int) simp_all
  have "real_of_int \<bar>m\<bar> < real_of_int (2 ^ 53)" using m by (simp only: of_int_less_iff)
  then have "\<bar>z\<bar> < 2 powr real_of_int 53 * 2 powr real_of_int e"
    unfolding az c by (intro mult_strict_right_mono) simp_all
  then have up: "\<bar>z\<bar> < 2 powr real_of_int (e + 53)"
    by (simp only: powr_add [symmetric] of_int_add add.commute)
  have "\<lfloor>log 2 \<bar>z\<bar>\<rfloor> < e + 53"
  proof (rule ccontr)
    assume "\<not> \<lfloor>log 2 \<bar>z\<bar>\<rfloor> < e + 53"
    then have "e + 53 \<le> \<lfloor>log 2 \<bar>z\<bar>\<rfloor>" by simp
    then have "(2::real) powr real_of_int (e + 53) \<le> 2 powr real_of_int \<lfloor>log 2 \<bar>z\<bar>\<rfloor>"
      by (intro powr_mono) simp_all
    moreover have "2 powr real_of_int \<lfloor>log 2 \<bar>z\<bar>\<rfloor> \<le> \<bar>z\<bar>"
      using floor_log_eq_powr_iff [of "\<bar>z\<bar>" 2 "\<lfloor>log 2 \<bar>z\<bar>\<rfloor>"] z0 by simp
    ultimately show False using up by linarith
  qed
  then have E: "expo z \<le> e + 52" using e by (simp add: expo_def)
  define d where "d = e + 52 - expo z"
  have d: "0 \<le> d" using E by (simp add: d_def)
  have "z / ulp z = real_of_int m * (2 powr real_of_int e / 2 powr real_of_int (expo z - 52))"
    by (simp add: z_def ulp_def)
  also have "2 powr real_of_int e / 2 powr real_of_int (expo z - 52) = 2 powr real_of_int d"
  proof -
    have "real_of_int e - real_of_int (expo z - 52) = real_of_int d" by (simp add: d_def)
    then show ?thesis by (simp only: powr_diff [symmetric])
  qed
  also have "\<dots> = 2 ^ nat d" using d by (rule two_powr_int)
  also have "real_of_int m * 2 ^ nat d = real_of_int (m * 2 ^ nat d)" by simp
  finally show ?thesis unfolding z_def [symmetric] by (rule rnd_int_quot)
qed

lemma rnd_dyadic:
  assumes m: "\<bar>m\<bar> \<le> 2 ^ 53" and e: "- 1074 \<le> e"
  shows "rnd (real_of_int m * 2 powr real_of_int e) = real_of_int m * 2 powr real_of_int e"
proof (cases "\<bar>m\<bar> < 2 ^ 53")
  case True then show ?thesis using e by (rule rnd_dyadic_lt)
next
  case False
  with m have "\<bar>m\<bar> = 2 ^ 53" by simp
  then have "m = 2 ^ 53 \<or> m = - (2 ^ 53)" by linarith
  then have "m = 2 * (m div 2)" and m2: "\<bar>m div 2\<bar> < 2 ^ 53" by auto
  then have "real_of_int m = real_of_int (m div 2) * 2" by linarith
  moreover have "2 * 2 powr real_of_int e = 2 powr real_of_int (e + 1)"
    by (simp add: powr_add)
  ultimately have eq: "real_of_int m * 2 powr real_of_int e = real_of_int (m div 2) * 2 powr real_of_int (e + 1)"
    by (simp only: mult.assoc)
  show ?thesis unfolding eq using m2 e by (intro rnd_dyadic_lt) simp_all
qed

lemma rnd_form: "rnd x = real_of_int (rne (x / ulp x)) * 2 powr real_of_int (expo x - 52)"
  by (simp add: rnd_def ulp_def)

lemma rnd_idem [simp]: "rnd (rnd x) = rnd x"
  unfolding rnd_form [of x] using rne_bound [of x] expo_ge [of x] by (intro rnd_dyadic) simp_all




lemma onGrid_0 [simp]: "onGrid 0"
  unfolding onGrid_def by (rule exI [of _ 0]) simp

lemma rnd_small_exact:
  assumes g: "onGrid x" and s: "\<bar>x\<bar> < 2 powr (- 1022)"
  shows "rnd x = x"
proof -
  from g obtain k :: int where x: "x = real_of_int k * 2 powr real_of_int (- 1074)"
    unfolding onGrid_def by auto
  have "\<bar>x\<bar> = real_of_int \<bar>k\<bar> * 2 powr (- 1074)" by (simp add: x abs_mult)
  moreover have "(2::real) powr (- 1022) = 2 powr real_of_int 52 * 2 powr (- 1074)"
  proof -
    have "real_of_int 52 + (- 1074) = (- 1022 :: real)" by simp
    then show ?thesis by (simp only: powr_add [symmetric])
  qed
  ultimately have "real_of_int \<bar>k\<bar> * 2 powr (- 1074) < 2 powr real_of_int 52 * 2 powr (- 1074)"
    using s by simp
  then have "real_of_int \<bar>k\<bar> < 2 powr real_of_int 52" by (simp only: mult_less_cancel_right_pos powr_gt_zero)
  also have "(2::real) powr real_of_int 52 = real_of_int (2 ^ 52)" by (subst two_powr_int) simp_all
  finally have "\<bar>k\<bar> < 2 ^ 52" by (simp only: of_int_less_iff)
  then have "\<bar>k\<bar> \<le> 2 ^ 53" by simp
  then show ?thesis unfolding x by (intro rnd_dyadic) simp_all
qed

text \<open>The relative error of rounding a value of the grid is at most \<open>2 powr - 53\<close>.\<close>

lemma rnd_rel_error:
  assumes g: "onGrid x"
  shows "\<bar>rnd x - x\<bar> \<le> 2 powr (- 53) * \<bar>x\<bar>"
proof (cases "\<bar>x\<bar> < 2 powr (- 1022)")
  case True
  with g have "rnd x = x" by (rule rnd_small_exact)
  then show ?thesis by simp
next
  case False
  then have n: "2 powr (- 1022) \<le> \<bar>x\<bar>" by simp
  have "ulp x = 2 powr real_of_int (expo x) * 2 powr (- 52)"
    by (simp add: ulp_def powr_add [symmetric])
  also have "\<dots> \<le> \<bar>x\<bar> * 2 powr (- 52)"
    using expo_normal(2) [OF n] by (intro mult_right_mono) simp_all
  finally have "ulp x / 2 \<le> \<bar>x\<bar> * (2 powr (- 52) / 2)" by simp
  also have "(2::real) powr (- 52) / 2 = 2 powr (- 53)"
    using powr_add [of "2::real" "- 53" 1] by simp
  finally show ?thesis using rnd_error [of x] by (simp add: mult.commute)
qed

text \<open>Rounding a value of the unit interval moves it by at most \<open>2 powr - 54\<close>.\<close>

lemma rnd_unit_error:
  assumes "0 \<le> x" and "x \<le> 1"
  shows "\<bar>rnd x - x\<bar> \<le> 2 powr (- 54)"
proof (cases "x = 0 \<or> x = 1")
  case True
  moreover have "rnd 1 = 1" using rnd_dyadic [of 1 0] by simp
  ultimately show ?thesis by auto
next
  case False
  with assms have x: "0 < x" "x < 1" by simp_all
  then have "log 2 \<bar>x\<bar> < 0" by simp
  then have "\<lfloor>log 2 \<bar>x\<bar>\<rfloor> \<le> - 1" by (simp add: floor_le_iff)
  then have "expo x \<le> - 1" by (simp add: expo_def)
  then have "ulp x \<le> 2 powr (- 53)" unfolding ulp_def by (intro powr_mono) simp_all
  then have "ulp x / 2 \<le> 2 powr (- 53) / 2" by simp
  also have "(2::real) powr (- 53) / 2 = 2 powr (- 54)"
    using powr_add [of "2::real" "- 54" 1] by simp
  finally show ?thesis using rnd_error [of x] by simp
qed

section \<open>Facts about numbers\<close>

lemma overflowAt_pos: "0 < overflowAt"
  by (simp add: overflowAt_def)

lemma overflowAt_ge: "2 ^ 53 \<le> overflowAt"
  unfolding overflowAt_def by (rule power_increasing) simp_all


lemma round_num_not_NaN [simp]: "round_num x \<noteq> NaN"
  by (simp add: round_num_def Let_def)

lemma round_num_exact: "rnd x = x \<Longrightarrow> \<bar>x\<bar> < overflowAt \<Longrightarrow> round_num x = Num x"
  by (auto simp: round_num_def Let_def)

lemma round_num_0 [simp]: "round_num 0 = Num 0"
  using overflowAt_pos by (simp add: round_num_def Let_def)

lemma round_num_minus: "round_num (- x) = fneg (round_num x)"
  using overflowAt_pos by (auto simp: round_num_def Let_def rnd_minus)

lemma rnd_int: "\<bar>k\<bar> \<le> 2 ^ 53 \<Longrightarrow> rnd (real_of_int k) = real_of_int k"
  using rnd_dyadic [of k 0] by simp

lemma rnd_int_div_pow2:
  assumes "\<bar>k\<bar> \<le> 2 ^ 53" and "n \<le> 1074"
  shows "rnd (real_of_int k / 2 ^ n) = real_of_int k / 2 ^ n"
proof -
  have "(2::real) powr real_of_int (- int n) = 1 / 2 ^ n"
    by (simp add: powr_minus powr_realpow inverse_eq_divide)
  then show ?thesis using rnd_dyadic [of k "- int n"] assms by simp
qed

lemma round_num_int_div_pow2:
  assumes "\<bar>k\<bar> \<le> 2 ^ 53" and "n \<le> 1074"
  shows "round_num (real_of_int k / 2 ^ n) = Num (real_of_int k / 2 ^ n)"
proof (rule round_num_exact)
  show "rnd (real_of_int k / 2 ^ n) = real_of_int k / 2 ^ n"
    using assms by (rule rnd_int_div_pow2)
  have "\<bar>real_of_int k\<bar> \<le> real_of_int (2 ^ 53)" using assms(1) by linarith
  then have k: "\<bar>real_of_int k\<bar> \<le> 2 ^ 53" by simp
  have "\<bar>real_of_int k / 2 ^ n\<bar> = \<bar>real_of_int k\<bar> / 2 ^ n" by simp
  also have "\<dots> \<le> \<bar>real_of_int k\<bar> / 1"
    by (intro divide_left_mono) simp_all
  also have "\<dots> \<le> 2 ^ 53" using k by simp
  also have "\<dots> < 2 * 2 ^ 53" by simp
  also have "\<dots> \<le> overflowAt" unfolding overflowAt_def
    using power_increasing [of 54 1024 "2::real"] by simp
  finally show "\<bar>real_of_int k / 2 ^ n\<bar> < overflowAt" .
qed

text \<open>The small integers and dyadic fractions of the worked examples are doubles.\<close>

lemma round_num_numeral [simp]:
  "(numeral w :: int) \<le> 2 ^ 53 \<Longrightarrow> round_num (numeral w) = Num (numeral w)"
  using round_num_int_div_pow2 [of "numeral w" 0] by simp

lemma round_num_1 [simp]: "round_num 1 = Num 1"
  using round_num_int_div_pow2 [of 1 0] by simp

lemma round_num_numeral_div [simp]:
  "(numeral w :: int) \<le> 2 ^ 53 \<Longrightarrow> round_num (numeral w / 2) = Num (numeral w / 2)"
  "(numeral w :: int) \<le> 2 ^ 53 \<Longrightarrow> round_num (numeral w / 4) = Num (numeral w / 4)"
  "(numeral w :: int) \<le> 2 ^ 53 \<Longrightarrow> round_num (numeral w / 8) = Num (numeral w / 8)"
  "(numeral w :: int) \<le> 2 ^ 53 \<Longrightarrow> round_num (numeral w / 16) = Num (numeral w / 16)"
  "(numeral w :: int) \<le> 2 ^ 53 \<Longrightarrow> round_num (numeral w / 32) = Num (numeral w / 32)"
  using round_num_int_div_pow2 [of "numeral w" 1] round_num_int_div_pow2 [of "numeral w" 2]
    round_num_int_div_pow2 [of "numeral w" 3] round_num_int_div_pow2 [of "numeral w" 4]
    round_num_int_div_pow2 [of "numeral w" 5]
  by simp_all

lemma round_num_1_div [simp]:
  "round_num (1 / 2) = Num (1 / 2)"
  "round_num (1 / 4) = Num (1 / 4)"
  "round_num (1 / 8) = Num (1 / 8)"
  "round_num (1 / 16) = Num (1 / 16)"
  "round_num (1 / 32) = Num (1 / 32)"
  using round_num_int_div_pow2 [of 1 1] round_num_int_div_pow2 [of 1 2]
    round_num_int_div_pow2 [of 1 3] round_num_int_div_pow2 [of 1 4]
    round_num_int_div_pow2 [of 1 5]
  by simp_all

lemma round_num_neg_numeral [simp]:
  "(numeral w :: int) \<le> 2 ^ 53 \<Longrightarrow> round_num (- numeral w) = Num (- numeral w)"
  by (simp add: round_num_minus)

lemma round_num_nat:
  assumes "n \<le> 2 ^ 53"
  shows "round_num (real n) = Num (real n)"
proof -
  have "\<bar>int n\<bar> \<le> 2 ^ 53" using assms by (simp add: of_nat_le_iff [of n "2 ^ 53", where ?'a = int, simplified])
  from round_num_int_div_pow2 [OF this, of 0] show ?thesis by simp
qed

subsection \<open>The order of the numbers\<close>

lemma fle_refl: "a \<noteq> NaN \<Longrightarrow> fle a a"
  by (cases a) simp_all

lemma fle_trans: "fle a b \<Longrightarrow> fle b c \<Longrightarrow> fle a c"
  by (cases a; cases b; cases c) simp_all

lemma flt_fle_trans: "flt a b \<Longrightarrow> fle b c \<Longrightarrow> flt a c"
  by (cases a; cases b; cases c) simp_all

lemma fle_flt_trans: "fle a b \<Longrightarrow> flt b c \<Longrightarrow> flt a c"
  by (cases a; cases b; cases c) simp_all

lemma fle_antisym: "fle a b \<Longrightarrow> fle b a \<Longrightarrow> a = b"
  by (cases a; cases b) simp_all

lemma not_flt_iff_fle: "a \<noteq> NaN \<Longrightarrow> b \<noteq> NaN \<Longrightarrow> (\<not> flt a b) = fle b a"
  by (cases a; cases b) auto

lemma not_fgt_iff_fle: "a \<noteq> NaN \<Longrightarrow> b \<noteq> NaN \<Longrightarrow> (\<not> fgt a b) = fle a b"
  unfolding fgt_def by (cases a; cases b) auto

lemma flt_imp_fle: "flt a b \<Longrightarrow> fle a b"
  by (cases a; cases b) simp_all

lemma fle_NaN [simp]: "\<not> fle a NaN" "\<not> fle NaN a" "\<not> flt a NaN" "\<not> flt NaN a"
  by (cases a; simp)+

lemma fle_imp_not_NaN: "fle a b \<Longrightarrow> a \<noteq> NaN \<and> b \<noteq> NaN"
  by (cases a; cases b) simp_all

lemma fle_top: "a \<noteq> NaN \<Longrightarrow> fle a PInf"
  by (cases a) simp_all

lemma fle_bot: "a \<noteq> NaN \<Longrightarrow> fle NInf a"
  by (cases a) simp_all

lemma fle_round_num [simp]: "fle (round_num x) PInf" "fle NInf (round_num x)"
  by (simp_all add: fle_top fle_bot)

lemma round_num_mono: "x \<le> y \<Longrightarrow> fle (round_num x) (round_num y)"
  using rnd_mono [of x y] overflowAt_pos by (auto simp: round_num_def Let_def)

lemma round_num_nonneg: "0 \<le> x \<Longrightarrow> fle (Num 0) (round_num x)"
  using round_num_mono [of 0 x] by simp


lemma fadd_mono: "fle a a' \<Longrightarrow> fle b b' \<Longrightarrow> fadd a b \<noteq> NaN \<Longrightarrow> fadd a' b' \<noteq> NaN \<Longrightarrow>
    fle (fadd a b) (fadd a' b')"
  by (cases a; cases b; cases a'; cases b')
    (simp_all add: round_num_mono add_mono fle_refl)

lemma fneg_antimono: "fle a b \<Longrightarrow> fle (fneg b) (fneg a)"
  by (cases a; cases b) simp_all

lemma fneg_not_NaN [simp]: "(fneg a = NaN) = (a = NaN)"
  by (cases a) simp_all

lemma fdiv_mono_left:
  assumes "fle a b" and "0 < y"
  shows "fle (fdiv a (Num y)) (fdiv b (Num y))"
  using assms by (cases a; cases b) (simp_all add: round_num_mono divide_right_mono)

lemma fdiv_nonneg:
  assumes "fle (Num 0) a" and "0 < y"
  shows "fle (Num 0) (fdiv a (Num y))"
  using assms by (cases a) (simp_all add: round_num_nonneg)

lemma fmax_0_nonneg: "a \<noteq> NaN \<Longrightarrow> fle (Num 0) (fmax (Num 0) a)"
  by (cases a) (simp_all add: fmax_def)

lemma fmax_0_id: "fle (Num 0) a \<Longrightarrow> fmax (Num 0) a = a"
  by (cases a) (auto simp: fmax_def)

lemma fmax_0_cases: "fmax (Num 0) a = NaN \<and> a = NaN \<or> fle (Num 0) (fmax (Num 0) a)"
  by (cases a) (simp_all add: fmax_def)
section \<open>Auxiliary facts\<close>


lemma upt_3: "[0..<3] = [0, Suc 0, 2]"
  by (simp add: upt_rec numeral_2_eq_2 numeral_3_eq_3)

lemma upt_4: "[0..<4] = [0, Suc 0, 2, 3]"
  by (simp add: upt_rec numeral_2_eq_2 numeral_3_eq_3 eval_nat_numeral)

lemma sumFrom_Nil [simp]: "sumFrom acc [] = acc"
  by (simp add: sumFrom_def)

lemma sumFrom_Cons [simp]: "sumFrom acc (v # vs) = sumFrom (fadd acc v) vs"
  by (simp add: sumFrom_def)


lemma sumFrom_snoc: "sumFrom acc (xs @ [v]) = fadd (sumFrom acc xs) v"
  by (simp add: sumFrom_def)

lemma take_map_nth_upt: "n \<le> length xs \<Longrightarrow> take n xs = map (\<lambda>j. xs ! j) [0..<n]"
  by (intro nth_equalityI) (simp_all del: upt_Suc)

section \<open>The allocation of one column\<close>


lemma positionIn_nth:
  "distinct xs \<Longrightarrow> k < length xs \<Longrightarrow> positionIn xs (xs ! k) = Some k"
proof (induction xs arbitrary: k)
  case Nil
  then show ?case by simp
next
  case (Cons a xs)
  show ?case
  proof (cases k)
    case 0
    then show ?thesis by simp
  next
    case (Suc j)
    with Cons.prems have "xs ! j \<in> set xs" "a \<notin> set xs" by simp_all
    then have "a \<noteq> xs ! j" by blast
    with Cons Suc show ?thesis by simp
  qed
qed

lemma length_cumulative: "length (cumulative acc vs) = length vs"
  by (induction vs arbitrary: acc) simp_all

text \<open>Entry \<open>k\<close> of the running sums is the sum of the first \<open>k + 1\<close> values.\<close>

lemma cumulative_nth:
  "k < length vs \<Longrightarrow> cumulative acc vs ! k = sumFrom acc (take (Suc k) vs)"
proof (induction vs arbitrary: acc k)
  case Nil
  then show ?case by simp
next
  case (Cons v vs)
  show ?case
  proof (cases k)
    case 0
    then show ?thesis by simp
  next
    case (Suc j)
    with Cons.prems have "j < length vs" by simp
    from Cons.IH [OF this, of "fadd acc v"] Suc show ?thesis by simp
  qed
qed

lemma length_columnShares: "length (columnShares col sCount) = sCount"
  by (simp add: columnShares_def Let_def)

lemma length_columnCum: "length (columnCum col order) = length order"
  by (simp add: columnCum_def Let_def length_cumulative)

lemma columnCum_last:
  "order \<noteq> [] \<Longrightarrow> columnCum col order ! (length order - 1) = Num 1"
  by (simp add: columnCum_def Let_def length_cumulative)

lemma columnCum_nth:
  assumes "list_all (\<lambda>s. s < length order) order" and "k < length order"
  shows "columnCum col order ! k = cumulativeShare (columnShares col (length order)) order k"
proof (cases "Suc k = length order")
  case True
  then have "k = length order - 1" "order \<noteq> []" by auto
  then show ?thesis using True columnCum_last [of order col] by (simp add: cumulativeShare_def)
next
  case False
  let ?sh = "columnShares col (length order)"
  have "take (Suc k) (map (\<lambda>s. nth_or NaN ?sh s) order)
      = map (\<lambda>j. map (\<lambda>s. nth_or NaN ?sh s) order ! j) [0..<Suc k]"
    using assms(2) by (intro take_map_nth_upt) simp
  also have "\<dots> = map (\<lambda>j. ?sh ! (order ! j)) [0..<Suc k]"
  proof (rule map_cong [OF refl])
    fix j assume "j \<in> set [0..<Suc k]"
    then have j: "j < length order" using assms(2) by auto
    with assms(1) have "order ! j < length order" by (simp add: list_all_length)
    with j show "map (\<lambda>s. nth_or NaN ?sh s) order ! j = ?sh ! (order ! j)"
      by (simp add: nth_or_def length_columnShares)
  qed
  finally have t: "take (Suc k) (map (\<lambda>s. nth_or NaN ?sh s) order)
      = map (\<lambda>j. ?sh ! (order ! j)) [0..<Suc k]" .
  have "columnCum col order ! k = cumulative (Num 0) (map (\<lambda>s. nth_or NaN ?sh s) order) ! k"
    using False assms(2) by (simp add: columnCum_def Let_def)
  also have "\<dots> = sumFrom (Num 0) (take (Suc k) (map (\<lambda>s. nth_or NaN ?sh s) order))"
    using assms(2) by (intro cumulative_nth) simp
  finally show ?thesis using False by (simp add: cumulativeShare_def t)
qed

text \<open>
  The while loop stops at the first index from \<open>k\<close> on that is the last one or whose
  cumulative value the position does not exceed.
\<close>

lemma pickBand_spec:
  "k < sCount \<Longrightarrow>
   k \<le> pickBand cum sCount y k \<and> pickBand cum sCount y k < sCount \<and>
   (Suc (pickBand cum sCount y k) = sCount \<or> \<not> fgt y (cum ! pickBand cum sCount y k)) \<and>
   (\<forall>j. k \<le> j \<and> j < pickBand cum sCount y k \<longrightarrow> fgt y (cum ! j))"
proof (induction cum sCount y k rule: pickBand.induct)
  case (1 cum sCount y k)
  show ?case
  proof (cases "int k < int sCount - 1 \<and> fgt y (cum ! k)")
    case True
    then have lt: "Suc k < sCount" by linarith
    have eq: "pickBand cum sCount y k = pickBand cum sCount y (Suc k)"
      by (subst pickBand.simps) (simp only: True if_True simp_thms)
    from "1.IH" [OF True lt]
    have ih: "Suc k \<le> pickBand cum sCount y (Suc k)" "pickBand cum sCount y (Suc k) < sCount"
      "Suc (pickBand cum sCount y (Suc k)) = sCount
         \<or> \<not> fgt y (cum ! pickBand cum sCount y (Suc k))"
      "\<forall>j. Suc k \<le> j \<and> j < pickBand cum sCount y (Suc k) \<longrightarrow> fgt y (cum ! j)"
      by simp_all
    have "fgt y (cum ! j)" if "k \<le> j" "j < pickBand cum sCount y (Suc k)" for j
    proof (cases "j = k")
      case True
      with \<open>int k < int sCount - 1 \<and> fgt y (cum ! k)\<close> show ?thesis by simp
    next
      case False
      with that have "Suc k \<le> j" by simp
      with ih(4) that show ?thesis by simp
    qed
    with ih show ?thesis unfolding eq by auto
  next
    case False
    have eq: "pickBand cum sCount y k = k"
      by (subst pickBand.simps) (simp only: False if_False simp_thms)
    from False "1.prems" have "Suc k = sCount \<or> \<not> fgt y (cum ! k)" by auto
    with "1.prems" show ?thesis unfolding eq by auto
  qed
qed

text \<open>
  The position of a slot is a number, at most 1, and the positions do not increase from
  the top slot downwards.
\<close>

lemma fsub_Num_antimono:
  assumes "fle t1 t2"
  shows "fle (fsub (Num c) t2) (fsub (Num c) t1)"
  using assms unfolding fsub_def
  by (cases t1; cases t2) (simp_all add: round_num_mono)

lemma slotTop_nonneg:
  "fle (Num 0) (fdiv (fadd (Num (real r)) (Num (1 / 2))) (Num (real (max 1 rows))))"
proof -
  have "fle (Num 0) (fadd (Num (real r)) (Num (1 / 2)))"
    by (simp add: round_num_nonneg)
  then show ?thesis by (rule fdiv_nonneg) simp
qed

lemma slotPosition_le_1: "fle (slotPosition rows r) (Num 1)"
proof -
  let ?t = "fdiv (fadd (Num (real r)) (Num (1 / 2))) (Num (real (max 1 rows)))"
  from fsub_Num_antimono [OF slotTop_nonneg [of r rows], of 1]
  have "fle (fsub (Num 1) ?t) (fsub (Num 1) (Num 0))" .
  then show ?thesis by (simp add: slotPosition_def Let_def fsub_def)
qed

lemma slotPosition_not_NaN: "slotPosition rows r \<noteq> NaN"
  using slotPosition_le_1 [of rows r] fle_imp_not_NaN by blast

lemma slotPosition_mono:
  assumes "r1 \<le> r2"
  shows "fle (slotPosition rows r2) (slotPosition rows r1)"
proof -
  have "fle (fadd (Num (real r1)) (Num (1 / 2))) (fadd (Num (real r2)) (Num (1 / 2)))"
    using assms by (simp add: round_num_mono)
  then have "fle (fdiv (fadd (Num (real r1)) (Num (1 / 2))) (Num (real (max 1 rows))))
      (fdiv (fadd (Num (real r2)) (Num (1 / 2))) (Num (real (max 1 rows))))"
    by (rule fdiv_mono_left) simp
  then show ?thesis unfolding slotPosition_def Let_def by (rule fsub_Num_antimono)
qed

lemma slotPosition_yFromBottom: "0 < rows \<Longrightarrow> slotPosition rows r = yFromBottom rows r"
  by (simp add: slotPosition_def yFromBottom_def Let_def max_def)

lemma buildAllocations_nth:
  "c < length distTable \<Longrightarrow> r < rows \<Longrightarrow>
   buildAllocations distTable rows order ! c ! r
     = rowSlot (columnCum (distTable ! c) order) order rows r"
  by (simp add: buildAllocations_def columnAllocation_def Let_def)

text \<open>
  The slot holds the series at the position the while loop stops at, for any column.
\<close>

lemma rowSlot_pick:
  assumes "order \<noteq> []"
  shows "pickBand cum (length order) (slotPosition rows r) 0 < length order"
    and "rowSlot cum order rows r
       = Some (order ! pickBand cum (length order) (slotPosition rows r) 0)"
proof -
  from assms have "0 < length order" by simp
  from pickBand_spec [OF this, of cum "slotPosition rows r"]
  show k: "pickBand cum (length order) (slotPosition rows r) 0 < length order" by simp
  then show "rowSlot cum order rows r
       = Some (order ! pickBand cum (length order) (slotPosition rows r) 0)"
    by (simp add: rowSlot_def Let_def nth_opt_def)
qed

text \<open>A lower slot never stops later than a higher one.\<close>

lemma pickBand_mono:
  assumes "0 < sCount" and "fle y2 y1"
  shows "pickBand cum sCount y2 0 \<le> pickBand cum sCount y1 0"
proof (rule ccontr)
  let ?k1 = "pickBand cum sCount y1 0" and ?k2 = "pickBand cum sCount y2 0"
  assume "\<not> ?k2 \<le> ?k1"
  then have lt: "?k1 < ?k2" by simp
  from pickBand_spec [OF assms(1), of cum y2]
  have k2: "?k2 < sCount" and low: "\<forall>j. j < ?k2 \<longrightarrow> fgt y2 (cum ! j)" by auto
  from pickBand_spec [OF assms(1), of cum y1]
  have stop: "Suc ?k1 = sCount \<or> \<not> fgt y1 (cum ! ?k1)" by auto
  from lt k2 have "Suc ?k1 \<noteq> sCount" by simp
  with stop have n: "\<not> fgt y1 (cum ! ?k1)" by simp
  from low lt have "flt (cum ! ?k1) y2" by (simp add: fgt_def)
  from flt_fle_trans [OF this assms(2)] n show False by (simp add: fgt_def)
qed
text \<open>
  A worked column: shares \<open>[1/2, 1/4, 1/4]\<close> under the order \<open>[2, 0, 1]\<close> have the
  cumulative values \<open>[1/4, 3/4, 1]\<close>; the four row slots sit at \<open>7/8, 5/8, 3/8, 1/8\<close>
  from the bottom. Every intermediate value is a double, so no operation rounds.
\<close>

lemma columnShares_example:
  "columnShares [Num (1 / 2), Num (1 / 4), Num (1 / 4)] (Suc (Suc (Suc 0)))
     = [Num (1 / 2), Num (1 / 4), Num (1 / 4)]"
  by (simp add: columnShares_def nth_or_def fmax_def fgt_def upt_rec [of 0] upt_rec [of "Suc 0"]
      upt_rec [of "Suc (Suc 0)"] Let_def)

lemma columnCum_example:
  "columnCum [Num (1 / 2), Num (1 / 4), Num (1 / 4)] [2, 0, Suc 0]
     = [Num (1 / 4), Num (3 / 4), Num 1]"
  by (simp add: columnCum_def columnShares_example nth_or_def Let_def)

lemma slotPosition_example:
  "slotPosition 4 0 = Num (7 / 8)" "slotPosition 4 (Suc 0) = Num (5 / 8)"
  "slotPosition 4 2 = Num (3 / 8)" "slotPosition 4 3 = Num (1 / 8)"
  by (simp_all add: slotPosition_def fsub_def Let_def)

lemma pickBand_example:
  "pickBand [Num (1 / 4), Num (3 / 4), Num 1] (Suc (Suc (Suc 0))) (Num (7 / 8)) 0 = 2"
  "pickBand [Num (1 / 4), Num (3 / 4), Num 1] (Suc (Suc (Suc 0))) (Num (5 / 8)) 0 = Suc 0"
  "pickBand [Num (1 / 4), Num (3 / 4), Num 1] (Suc (Suc (Suc 0))) (Num (3 / 8)) 0 = Suc 0"
  "pickBand [Num (1 / 4), Num (3 / 4), Num 1] (Suc (Suc (Suc 0))) (Num (1 / 8)) 0 = 0"
  by (simp_all add: pickBand.simps [of _ _ _ 0] pickBand.simps [of _ _ _ "Suc 0"]
      pickBand.simps [of _ _ _ "Suc (Suc 0)"] fgt_def numeral_2_eq_2)

lemma buildAllocations_example:
  "buildAllocations [[Num (1 / 2), Num (1 / 4), Num (1 / 4)]] 4 [2, 0, Suc 0]
     = [[Some 1, Some 0, Some 0, Some 2]]"
  by (simp add: buildAllocations_def columnAllocation_def columnCum_example rowSlot_def
      slotPosition_example pickBand_example nth_opt_def upt_4 Let_def)
section \<open>Evaluating a rounding\<close>

text \<open>
  For \<open>x\<close> with \<open>2^52 \<le> \<bar>x\<bar> * 2^k < 2^53\<close> the doubles around \<open>x\<close> are the multiples of
  \<open>1 / 2^k\<close>: \<open>rnd x\<close> is \<open>x * 2^k\<close> rounded to an integer, over \<open>2^k\<close>.
\<close>

lemma rnd_scaled:
  assumes lo: "2 ^ 52 \<le> \<bar>x\<bar> * 2 ^ k" and hi: "\<bar>x\<bar> * 2 ^ k < 2 ^ 53" and k: "k \<le> 1074"
  shows "rnd x = real_of_int (rne (x * 2 ^ k)) / 2 ^ k"
proof -
  define e where "e = 52 - int k"
  have p: "(2::real) powr real_of_int (- int k) = 1 / 2 ^ k"
    by (simp add: powr_minus powr_realpow inverse_eq_divide)
  have p52: "(2::real) powr real_of_int 52 = 2 ^ 52" by (subst two_powr_int) simp_all
  have p53: "(2::real) powr real_of_int 53 = 2 ^ 53" by (subst two_powr_int) simp_all
  have "real_of_int e = real_of_int 52 + real_of_int (- int k)" by (simp add: e_def)
  then have pe: "2 powr real_of_int e = 2 ^ 52 / 2 ^ k"
    by (simp only: powr_add p p52) simp
  have "real_of_int (e + 1) = real_of_int 53 + real_of_int (- int k)" by (simp add: e_def)
  then have pe1: "2 powr real_of_int (e + 1) = 2 ^ 53 / 2 ^ k"
    by (simp only: powr_add p p53) simp
  have x0: "0 < \<bar>x\<bar>"
  proof (rule ccontr)
    assume "\<not> 0 < \<bar>x\<bar>"
    then have "\<bar>x\<bar> * 2 ^ k = 0" by simp
    with lo show False by simp
  qed
  have "2 powr real_of_int e \<le> \<bar>x\<bar>" "\<bar>x\<bar> < 2 powr real_of_int (e + 1)"
    unfolding pe pe1 using lo hi by (simp_all add: pos_divide_le_eq pos_less_divide_eq)
  then have "\<lfloor>log 2 \<bar>x\<bar>\<rfloor> = e"
    using floor_log_eq_powr_iff [of "\<bar>x\<bar>" 2 e] x0 by simp
  moreover have "- 1022 \<le> e" using k by (simp add: e_def)
  ultimately have ex: "expo x = e" by (simp add: expo_def)
  have "real_of_int (e - 52) = real_of_int (- int k)" by (simp add: e_def)
  then have u: "ulp x = 1 / 2 ^ k" unfolding ulp_def ex by (simp only: p)
  show ?thesis unfolding rnd_def u by simp
qed

lemma round_num_scaled:
  assumes "2 ^ 52 \<le> \<bar>x\<bar> * 2 ^ k" and "\<bar>x\<bar> * 2 ^ k < 2 ^ 53" and "k \<le> 1074"
  shows "round_num x = Num (real_of_int (rne (x * 2 ^ k)) / 2 ^ k)"
proof -
  have r: "rnd x = real_of_int (rne (x * 2 ^ k)) / 2 ^ k" using assms by (rule rnd_scaled)
  have "\<bar>x * 2 ^ k\<bar> < 2 ^ 53" using assms(2) by (simp add: abs_mult)
  then have a: "x * 2 ^ k \<le> real_of_int (2 ^ 53)" and b: "real_of_int (- (2 ^ 53)) \<le> x * 2 ^ k"
    by simp_all
  from rne_mono [OF a] rne_mono [OF b] have "\<bar>rne (x * 2 ^ k)\<bar> \<le> 2 ^ 53"
    unfolding rne_of_int by linarith
  then have "\<bar>real_of_int (rne (x * 2 ^ k))\<bar> \<le> real_of_int (2 ^ 53)" by linarith
  then have m: "\<bar>real_of_int (rne (x * 2 ^ k))\<bar> \<le> 2 ^ 53" by simp
  have "\<bar>rnd x\<bar> = \<bar>real_of_int (rne (x * 2 ^ k))\<bar> / 2 ^ k" by (simp add: r)
  also have "\<dots> \<le> \<bar>real_of_int (rne (x * 2 ^ k))\<bar> / 1"
    by (intro divide_left_mono) simp_all
  also have "\<dots> \<le> 2 ^ 53" using m by simp
  also have "\<dots> < 2 * 2 ^ 53" by simp
  also have "\<dots> \<le> overflowAt" unfolding overflowAt_def
    using power_increasing [of 54 1024 "2::real"] by simp
  finally have "\<bar>rnd x\<bar> < overflowAt" .
  then have "round_num x = Num (rnd x)" by (auto simp: round_num_def Let_def abs_less_iff)
  then show ?thesis by (simp only: r)
qed

section \<open>Polygons and bounding boxes\<close>

text \<open>Where an edge crosses the height \<open>y\<close>, it does so between its end points.\<close>

lemma edge_crossing_bounds:
  fixes xi yi xj yj y :: real
  assumes "(yi > y) \<noteq> (yj > y)"
  shows "min xi xj \<le> ((xj - xi) * (y - yi)) / (yj - yi) + xi"
    and "((xj - xi) * (y - yi)) / (yj - yi) + xi \<le> max xi xj"
proof -
  define t where "t = (y - yi) / (yj - yi)"
  have t: "0 \<le> t \<and> t \<le> 1"
  proof (cases "yi > y")
    case True
    with assms have "yj \<le> y" by simp
    with True have "y - yi < 0" "yj - yi < 0" "yj - yi \<le> y - yi" by simp_all
    then show ?thesis
      unfolding t_def by (simp add: divide_nonpos_neg neg_divide_le_eq)
  next
    case False
    with assms have "yj > y" by simp
    with False have "0 \<le> y - yi" "0 < yj - yi" "y - yi \<le> yj - yi" by simp_all
    then show ?thesis
      unfolding t_def by (simp add: pos_divide_le_eq)
  qed
  define d where "d = (xj - xi) * t"
  have e: "((xj - xi) * (y - yi)) / (yj - yi) + xi = xi + d"
    by (simp add: t_def d_def)
  have d: "(xi \<le> xj \<longrightarrow> 0 \<le> d \<and> d \<le> xj - xi) \<and> (xj \<le> xi \<longrightarrow> xj - xi \<le> d \<and> d \<le> 0)"
  proof (intro conjI impI)
    assume "xi \<le> xj"
    then have a: "0 \<le> xj - xi" by simp
    with t show "0 \<le> d" unfolding d_def by (intro mult_nonneg_nonneg) simp_all
    from a t have "(xj - xi) * t \<le> (xj - xi) * 1" by (intro mult_left_mono) simp_all
    then show "d \<le> xj - xi" unfolding d_def by (simp only: mult_1_right)
  next
    assume "xj \<le> xi"
    then have a: "0 \<le> xi - xj" by simp
    have m: "d = - ((xi - xj) * t)" unfolding d_def by (simp only: minus_mult_left minus_diff_eq)
    from a t have "0 \<le> (xi - xj) * t" by (intro mult_nonneg_nonneg) simp_all
    then show "d \<le> 0" unfolding m by linarith
    from a t have "(xi - xj) * t \<le> (xi - xj) * 1" by (intro mult_left_mono) simp_all
    then have "(xi - xj) * t \<le> xi - xj" by (simp only: mult_1_right)
    then show "xj - xi \<le> d" unfolding m by linarith
  qed
  show "min xi xj \<le> ((xj - xi) * (y - yi)) / (yj - yi) + xi"
    unfolding e using d by (auto simp: min_def)
  show "((xj - xi) * (y - yi)) / (yj - yi) + xi \<le> max xi xj"
    unfolding e using d by (auto simp: max_def)
qed

text \<open>Left of both end points every crossing counts; right of both none does.\<close>

lemma edgeIntersect_left:
  assumes "x < fst p" and "x < fst q"
  shows "edgeIntersect x y p q = ((snd p > y) \<noteq> (snd q > y))"
proof (cases p, cases q)
  fix xi yi xj yj assume pq: "p = (xi, yi)" "q = (xj, yj)"
  show ?thesis
  proof (cases "(yi > y) \<noteq> (yj > y)")
    case True
    from edge_crossing_bounds(1) [OF True, of xi xj] assms pq
    have "x < ((xj - xi) * (y - yi)) / (yj - yi) + xi" by simp
    with True show ?thesis by (simp add: edgeIntersect_def pq)
  next
    case False
    then show ?thesis by (simp add: edgeIntersect_def pq)
  qed
qed

lemma edgeIntersect_right:
  assumes "fst p < x" and "fst q < x"
  shows "\<not> edgeIntersect x y p q"
proof (cases p, cases q)
  fix xi yi xj yj assume pq: "p = (xi, yi)" "q = (xj, yj)"
  show ?thesis
  proof (cases "(yi > y) \<noteq> (yj > y)")
    case True
    from edge_crossing_bounds(2) [OF True, of xj xi] assms pq
    have "\<not> x < ((xj - xi) * (y - yi)) / (yj - yi) + xi" by simp
    then show ?thesis by (simp add: edgeIntersect_def pq)
  next
    case False
    then show ?thesis by (simp add: edgeIntersect_def pq)
  qed
qed

lemma edgeIntersect_straddle:
  "edgeIntersect x y p q \<Longrightarrow> (snd p > y) \<noteq> (snd q > y)"
  by (cases p, cases q) (simp add: edgeIntersect_def)

text \<open>A loop over edges none of which counts leaves \<open>inside\<close> as it was.\<close>

lemma pointInPolyLoop_no_flip:
  "\<forall>p \<in> insert pj (set ps). \<forall>q \<in> insert pj (set ps). \<not> edgeIntersect x y p q \<Longrightarrow>
   pointInPolyLoop x y pj ps b = b"
  by (induction ps arbitrary: pj b) simp_all

text \<open>
  Where every crossing counts, the loop flips \<open>inside\<close> once per change of side along
  the vertices, so the result depends on the sides of the first and the last vertex only.
\<close>

lemma pointInPolyLoop_parity:
  "\<forall>p \<in> insert pj (set ps). \<forall>q \<in> insert pj (set ps).
      edgeIntersect x y p q = ((snd p > y) \<noteq> (snd q > y)) \<Longrightarrow>
   pointInPolyLoop x y pj ps b = (b \<noteq> ((snd pj > y) \<noteq> (snd (last (pj # ps)) > y)))"
proof (induction ps arbitrary: pj b)
  case Nil
  then show ?case by simp
next
  case (Cons p ps)
  have "\<forall>u \<in> insert p (set ps). \<forall>v \<in> insert p (set ps).
      edgeIntersect x y u v = ((snd u > y) \<noteq> (snd v > y))"
    using Cons.prems by simp
  from Cons.IH [OF this] Cons.prems show ?case by auto
qed

text \<open>The running bounds of the bounding box.\<close>

lemma below_trans: "v < u \<Longrightarrow> below u b \<Longrightarrow> below v b"
  by (cases b) simp_all

lemma below_not_below: "below v b \<Longrightarrow> \<not> below u b \<Longrightarrow> v < u"
  by (cases b) simp_all

lemma above_trans: "u < v \<Longrightarrow> above u b \<Longrightarrow> above v b"
  by (cases b) simp_all

lemma above_not_above: "above v b \<Longrightarrow> \<not> above u b \<Longrightarrow> u < v"
  by (cases b) simp_all

lemma fold_bboxStep_minX:
  "below v (minX (fold bboxStep poly b)) \<Longrightarrow> below v (minX b) \<and> (\<forall>p \<in> set poly. v < fst p)"
proof (induction poly arbitrary: b)
  case Nil
  then show ?case by simp
next
  case (Cons p poly)
  from Cons.IH [of "bboxStep p b"] Cons.prems
  have 1: "below v (minX (bboxStep p b))" and 2: "\<forall>q \<in> set poly. v < fst q" by simp_all
  from 1 have "below v (minX b) \<and> v < fst p"
    by (cases p) (auto simp: bboxStep_def split: if_splits intro: below_trans below_not_below)
  with 2 show ?case by simp
qed

lemma fold_bboxStep_minY:
  "below v (minY (fold bboxStep poly b)) \<Longrightarrow> below v (minY b) \<and> (\<forall>p \<in> set poly. v < snd p)"
proof (induction poly arbitrary: b)
  case Nil
  then show ?case by simp
next
  case (Cons p poly)
  from Cons.IH [of "bboxStep p b"] Cons.prems
  have 1: "below v (minY (bboxStep p b))" and 2: "\<forall>q \<in> set poly. v < snd q" by simp_all
  from 1 have "below v (minY b) \<and> v < snd p"
    by (cases p) (auto simp: bboxStep_def split: if_splits intro: below_trans below_not_below)
  with 2 show ?case by simp
qed

lemma fold_bboxStep_maxX:
  "above v (maxX (fold bboxStep poly b)) \<Longrightarrow> above v (maxX b) \<and> (\<forall>p \<in> set poly. fst p < v)"
proof (induction poly arbitrary: b)
  case Nil
  then show ?case by simp
next
  case (Cons p poly)
  from Cons.IH [of "bboxStep p b"] Cons.prems
  have 1: "above v (maxX (bboxStep p b))" and 2: "\<forall>q \<in> set poly. fst q < v" by simp_all
  from 1 have "above v (maxX b) \<and> fst p < v"
    by (cases p) (auto simp: bboxStep_def split: if_splits intro: above_trans above_not_above)
  with 2 show ?case by simp
qed

lemma fold_bboxStep_maxY:
  "above v (maxY (fold bboxStep poly b)) \<Longrightarrow> above v (maxY b) \<and> (\<forall>p \<in> set poly. snd p < v)"
proof (induction poly arbitrary: b)
  case Nil
  then show ?case by simp
next
  case (Cons p poly)
  from Cons.IH [of "bboxStep p b"] Cons.prems
  have 1: "above v (maxY (bboxStep p b))" and 2: "\<forall>q \<in> set poly. snd q < v" by simp_all
  from 1 have "above v (maxY b) \<and> snd p < v"
    by (cases p) (auto simp: bboxStep_def split: if_splits intro: above_trans above_not_above)
  with 2 show ?case by simp
qed

text \<open>A point the ray-casting test accepts is not outside the bounding box.\<close>

lemma pointInPoly_inside_bbox:
  assumes "pointInPoly x y poly"
  shows "\<not> outsideBBox x y (Some (polyBBox poly))"
proof
  assume out: "outsideBBox x y (Some (polyBBox poly))"
  from assms have ne: "poly \<noteq> []" and loop: "pointInPolyLoop x y (last poly) poly False"
    by (auto simp: pointInPoly_def split: if_splits)
  from ne have ins: "insert (last poly) (set poly) = set poly" by auto
  from out consider
      (left) "below x (minX (polyBBox poly))" | (right) "above x (maxX (polyBBox poly))"
    | (under) "below y (minY (polyBBox poly))" | (over) "above y (maxY (polyBBox poly))"
    by (auto simp: outsideBBox_def)
  then show False
  proof cases
    case left
    then have "\<forall>p \<in> set poly. x < fst p"
      unfolding polyBBox_def by (auto dest: fold_bboxStep_minX)
    then have "\<forall>p \<in> insert (last poly) (set poly). \<forall>q \<in> insert (last poly) (set poly).
        edgeIntersect x y p q = ((snd p > y) \<noteq> (snd q > y))"
      unfolding ins by (simp add: edgeIntersect_left)
    from pointInPolyLoop_parity [OF this, of False] loop ne show False by simp
  next
    case right
    then have "\<forall>p \<in> set poly. fst p < x"
      unfolding polyBBox_def by (auto dest: fold_bboxStep_maxX)
    then have "\<forall>p \<in> insert (last poly) (set poly). \<forall>q \<in> insert (last poly) (set poly).
        \<not> edgeIntersect x y p q"
      unfolding ins by (simp add: edgeIntersect_right)
    from pointInPolyLoop_no_flip [OF this, of False] loop show False by simp
  next
    case under
    then have "\<forall>p \<in> set poly. y < snd p"
      unfolding polyBBox_def by (auto dest: fold_bboxStep_minY)
    then have "\<forall>p \<in> insert (last poly) (set poly). \<forall>q \<in> insert (last poly) (set poly).
        \<not> edgeIntersect x y p q"
      unfolding ins by (auto dest: edgeIntersect_straddle)
    from pointInPolyLoop_no_flip [OF this, of False] loop show False by simp
  next
    case over
    then have "\<forall>p \<in> set poly. snd p < y"
      unfolding polyBBox_def by (auto dest: fold_bboxStep_maxY)
    then have "\<forall>p \<in> insert (last poly) (set poly). \<forall>q \<in> insert (last poly) (set poly).
        \<not> edgeIntersect x y p q"
      unfolding ins by (auto dest!: edgeIntersect_straddle)
    from pointInPolyLoop_no_flip [OF this, of False] loop show False by simp
  qed
qed

section \<open>The bounding box as minimum and maximum\<close>

lemma fold_bboxStep_minX_attained:
  "minX (fold bboxStep poly b) = minX b \<or> (\<exists>p \<in> set poly. minX (fold bboxStep poly b) = Finite (fst p))"
proof (induction poly arbitrary: b)
  case Nil
  then show ?case by simp
next
  case (Cons p poly)
  from Cons.IH [of "bboxStep p b"] show ?case
    by (cases p) (auto simp: bboxStep_def split: if_splits)
qed

lemma fold_bboxStep_minY_attained:
  "minY (fold bboxStep poly b) = minY b \<or> (\<exists>p \<in> set poly. minY (fold bboxStep poly b) = Finite (snd p))"
proof (induction poly arbitrary: b)
  case Nil
  then show ?case by simp
next
  case (Cons p poly)
  from Cons.IH [of "bboxStep p b"] show ?case
    by (cases p) (auto simp: bboxStep_def split: if_splits)
qed

lemma fold_bboxStep_maxX_attained:
  "maxX (fold bboxStep poly b) = maxX b \<or> (\<exists>p \<in> set poly. maxX (fold bboxStep poly b) = Finite (fst p))"
proof (induction poly arbitrary: b)
  case Nil
  then show ?case by simp
next
  case (Cons p poly)
  from Cons.IH [of "bboxStep p b"] show ?case
    by (cases p) (auto simp: bboxStep_def split: if_splits)
qed

lemma fold_bboxStep_maxY_attained:
  "maxY (fold bboxStep poly b) = maxY b \<or> (\<exists>p \<in> set poly. maxY (fold bboxStep poly b) = Finite (snd p))"
proof (induction poly arbitrary: b)
  case Nil
  then show ?case by simp
next
  case (Cons p poly)
  from Cons.IH [of "bboxStep p b"] show ?case
    by (cases p) (auto simp: bboxStep_def split: if_splits)
qed

lemma polyBBox_minX:
  assumes "poly \<noteq> []"
  shows "minX (polyBBox poly) = Finite (Min (fst ` set poly))"
proof -
  let ?b = "polyBBox poly"
  have low: "\<not> below (fst q) (minX ?b)" if "q \<in> set poly" for q
  proof
    assume "below (fst q) (minX ?b)"
    then have "\<forall>p \<in> set poly. fst q < fst p"
      unfolding polyBBox_def by (auto dest: fold_bboxStep_minX)
    with that show False by auto
  qed
  from assms have "hd poly \<in> set poly" by simp
  from low [OF this] have "minX ?b \<noteq> PosInfinity" by auto
  with fold_bboxStep_minX_attained [of poly
      "\<lparr>minX = PosInfinity, minY = PosInfinity, maxX = NegInfinity, maxY = NegInfinity\<rparr>"]
  obtain p where p: "p \<in> set poly" "minX ?b = Finite (fst p)"
    unfolding polyBBox_def by auto
  have "Min (fst ` set poly) = fst p"
  proof (rule Min_eqI)
    show "finite (fst ` set poly)" by simp
    show "fst p \<in> fst ` set poly" using p by simp
    fix v assume "v \<in> fst ` set poly"
    then obtain q where "q \<in> set poly" "v = fst q" by auto
    with low [of q] p show "fst p \<le> v" by simp
  qed
  with p show ?thesis by simp
qed

lemma polyBBox_minY:
  assumes "poly \<noteq> []"
  shows "minY (polyBBox poly) = Finite (Min (snd ` set poly))"
proof -
  let ?b = "polyBBox poly"
  have low: "\<not> below (snd q) (minY ?b)" if "q \<in> set poly" for q
  proof
    assume "below (snd q) (minY ?b)"
    then have "\<forall>p \<in> set poly. snd q < snd p"
      unfolding polyBBox_def by (auto dest: fold_bboxStep_minY)
    with that show False by auto
  qed
  from assms have "hd poly \<in> set poly" by simp
  from low [OF this] have "minY ?b \<noteq> PosInfinity" by auto
  with fold_bboxStep_minY_attained [of poly
      "\<lparr>minX = PosInfinity, minY = PosInfinity, maxX = NegInfinity, maxY = NegInfinity\<rparr>"]
  obtain p where p: "p \<in> set poly" "minY ?b = Finite (snd p)"
    unfolding polyBBox_def by auto
  have "Min (snd ` set poly) = snd p"
  proof (rule Min_eqI)
    show "finite (snd ` set poly)" by simp
    show "snd p \<in> snd ` set poly" using p by simp
    fix v assume "v \<in> snd ` set poly"
    then obtain q where "q \<in> set poly" "v = snd q" by auto
    with low [of q] p show "snd p \<le> v" by simp
  qed
  with p show ?thesis by simp
qed

lemma polyBBox_maxX:
  assumes "poly \<noteq> []"
  shows "maxX (polyBBox poly) = Finite (Max (fst ` set poly))"
proof -
  let ?b = "polyBBox poly"
  have up: "\<not> above (fst q) (maxX ?b)" if "q \<in> set poly" for q
  proof
    assume "above (fst q) (maxX ?b)"
    then have "\<forall>p \<in> set poly. fst p < fst q"
      unfolding polyBBox_def by (auto dest: fold_bboxStep_maxX)
    with that show False by auto
  qed
  from assms have "hd poly \<in> set poly" by simp
  from up [OF this] have "maxX ?b \<noteq> NegInfinity" by auto
  with fold_bboxStep_maxX_attained [of poly
      "\<lparr>minX = PosInfinity, minY = PosInfinity, maxX = NegInfinity, maxY = NegInfinity\<rparr>"]
  obtain p where p: "p \<in> set poly" "maxX ?b = Finite (fst p)"
    unfolding polyBBox_def by auto
  have "Max (fst ` set poly) = fst p"
  proof (rule Max_eqI)
    show "finite (fst ` set poly)" by simp
    show "fst p \<in> fst ` set poly" using p by simp
    fix v assume "v \<in> fst ` set poly"
    then obtain q where "q \<in> set poly" "v = fst q" by auto
    with up [of q] p show "v \<le> fst p" by simp
  qed
  with p show ?thesis by simp
qed

lemma polyBBox_maxY:
  assumes "poly \<noteq> []"
  shows "maxY (polyBBox poly) = Finite (Max (snd ` set poly))"
proof -
  let ?b = "polyBBox poly"
  have up: "\<not> above (snd q) (maxY ?b)" if "q \<in> set poly" for q
  proof
    assume "above (snd q) (maxY ?b)"
    then have "\<forall>p \<in> set poly. snd p < snd q"
      unfolding polyBBox_def by (auto dest: fold_bboxStep_maxY)
    with that show False by auto
  qed
  from assms have "hd poly \<in> set poly" by simp
  from up [OF this] have "maxY ?b \<noteq> NegInfinity" by auto
  with fold_bboxStep_maxY_attained [of poly
      "\<lparr>minX = PosInfinity, minY = PosInfinity, maxX = NegInfinity, maxY = NegInfinity\<rparr>"]
  obtain p where p: "p \<in> set poly" "maxY ?b = Finite (snd p)"
    unfolding polyBBox_def by auto
  have "Max (snd ` set poly) = snd p"
  proof (rule Max_eqI)
    show "finite (snd ` set poly)" by simp
    show "snd p \<in> snd ` set poly" using p by simp
    fix v assume "v \<in> snd ` set poly"
    then obtain q where "q \<in> set poly" "v = snd q" by auto
    with up [of q] p show "v \<le> snd p" by simp
  qed
  with p show ?thesis by simp
qed

lemma polyBBox_eq:
  assumes "poly \<noteq> []"
  shows "polyBBox poly =
     \<lparr>minX = Finite (Min (fst ` set poly)), minY = Finite (Min (snd ` set poly)),
      maxX = Finite (Max (fst ` set poly)), maxY = Finite (Max (snd ` set poly))\<rparr>"
  using polyBBox_minX [OF assms] polyBBox_minY [OF assms] polyBBox_maxX [OF assms]
    polyBBox_maxY [OF assms]
  by (cases "polyBBox poly") simp

text \<open>The scan with the bounding boxes finds what the scan without them finds.\<close>

lemma findHit_findHitByPolygon:
  assumes "\<forall>c \<in> set cells. cell_bbox c = Some (polyBBox (cell_poly c))"
  shows "findHit mx my cells = findHitByPolygon mx my cells"
  using assms
proof (induction cells)
  case Nil
  then show ?case by simp
next
  case (Cons c cells)
  then have bb: "cell_bbox c = Some (polyBBox (cell_poly c))"
    and ih: "findHit mx my cells = findHitByPolygon mx my cells"
    by simp_all
  show ?case
  proof (cases "pointInPoly mx my (cell_poly c)")
    case True
    then have "\<not> outsideBBox mx my (cell_bbox c)"
      unfolding bb by (rule pointInPoly_inside_bbox)
    with True show ?thesis by simp
  next
    case False
    with ih show ?thesis by simp
  qed
qed

text \<open>Every cell render builds carries the bounding box of its six vertices.\<close>

lemma length_hexPolygon: "length (hexPolygon cx cy r) = 6"
  by (simp add: hexPolygon_def Let_def)

lemma makeHexCell_bbox:
  "cell_bbox (makeHexCell binsEven binsOdd seriesLen hexR r c)
     = Some (polyBBox (cell_poly (makeHexCell binsEven binsOdd seriesLen hexR r c))) \<and>
   length (cell_poly (makeHexCell binsEven binsOdd seriesLen hexR r c)) = 6"
  by (simp add: makeHexCell_def Let_def length_hexPolygon)

lemma render_hexCells_bbox:
  assumes "c \<in> set (render_hexCells st g)"
  shows "cell_bbox c = Some (polyBBox (cell_poly c)) \<and> length (cell_poly c) = 6"
proof -
  from assms obtain r m where
    "c = makeHexCell (render_binsEven st g) (render_binsOdd st g) (length (mock_series g))
           (render_hexR st) r m"
    unfolding render_hexCells_def by auto
  then show ?thesis by (simp only: makeHexCell_bbox simp_thms)
qed

section \<open>The totals and the sort of the Global Order\<close>














text \<open>The insertion sort, for the comparator \<open>key b - key a\<close>.\<close>

lemma set_insert_cmp: "set (insert_cmp cmp a xs) = insert a (set xs)"
  by (induction xs) auto

lemma length_insert_cmp: "length (insert_cmp cmp a xs) = Suc (length xs)"
  by (induction xs) auto

lemma distinct_insert_cmp:
  "distinct xs \<Longrightarrow> a \<notin> set xs \<Longrightarrow> distinct (insert_cmp cmp a xs)"
  by (induction xs) (auto simp: set_insert_cmp)






lemma array_sort_shape:
  "set (array_sort cmp xs) = set xs \<and> length (array_sort cmp xs) = length xs \<and>
   (distinct xs \<longrightarrow> distinct (array_sort cmp xs))"
  by (induction xs)
    (simp_all add: array_sort_def set_insert_cmp length_insert_cmp distinct_insert_cmp)


lemma computeGlobalOrder_shape:
  "set (computeGlobalOrder binsEven binsOdd sCount) = {0..<sCount}"
  "length (computeGlobalOrder binsEven binsOdd sCount) = sCount"
  "distinct (computeGlobalOrder binsEven binsOdd sCount)"
  using array_sort_shape [of "\<lambda>a b. fsub (seriesTotals binsEven binsOdd sCount ! b)
      (seriesTotals binsEven binsOdd sCount ! a)" "[0..<sCount]"]
  by (simp_all add: computeGlobalOrder_def Let_def)

lemma length_computeGlobalOrder [simp]:
  "length (computeGlobalOrder binsEven binsOdd sCount) = sCount"
  by (rule computeGlobalOrder_shape)









section \<open>Facts about the render cycle\<close>

lemmas render_consts =
  render_hexR_def render_plot_def render_hexWidth_def render_vertStep_def render_plotW_def
  render_cols_def render_smoothedGraph_def render_binsEven_def render_binsOdd_def
  render_firstY_def render_lastY_def render_rows_def render_evenRowCount_def
  render_oddRowCount_def render_computedGlobalOrder_def render_activeOrder_def
  render_allocEven_def render_allocOdd_def render_startXEven_def render_cellMap_def
  render_hexCells_def

text \<open>
  The constants of render read the inputs only, not what an earlier render left in the
  state (\<open>hexCells\<close>, \<open>lastPlot\<close>, the cached colours).
\<close>

lemma render_hexCells_outputs:
  "render_hexCells (st\<lparr>hexCells := hc, lastPlot := lp, cachedColorCount := cc\<rparr>) g
     = render_hexCells st g"
  unfolding render_consts by simp

lemma render_plot_outputs:
  "render_plot (st\<lparr>hexCells := hc, lastPlot := lp, cachedColorCount := cc\<rparr>) = render_plot st"
  unfolding render_consts by simp

lemma render_computedGlobalOrder_outputs:
  "render_computedGlobalOrder (st\<lparr>hexCells := hc, lastPlot := lp, cachedColorCount := cc\<rparr>) g
     = render_computedGlobalOrder st g"
  unfolding render_consts by simp

lemma render_activeOrder_outputs:
  "render_activeOrder (st\<lparr>hexCells := hc, lastPlot := lp, cachedColorCount := cc\<rparr>) g
     = render_activeOrder st g"
  unfolding render_consts by simp

text \<open>The computed order does not read the override.\<close>

lemma render_computedGlobalOrder_userOrder:
  "render_computedGlobalOrder (st\<lparr>userOrder := uo\<rparr>) g = render_computedGlobalOrder st g"
  unfolding render_consts by simp

lemma length_render_computedGlobalOrder:
  "length (render_computedGlobalOrder st g) = length (mock_series g)"
  by (simp add: render_computedGlobalOrder_def)

text \<open>The cells read the override through the active order only.\<close>

lemma render_hexCells_userOrder:
  assumes "render_activeOrder (st\<lparr>userOrder := uo\<rparr>) g = render_activeOrder (st\<lparr>userOrder := uo'\<rparr>) g"
  shows "render_hexCells (st\<lparr>userOrder := uo\<rparr>) g = render_hexCells (st\<lparr>userOrder := uo'\<rparr>) g"
proof -
  have e: "render_allocEven (st\<lparr>userOrder := uo\<rparr>) g = render_allocEven (st\<lparr>userOrder := uo'\<rparr>) g"
    unfolding render_allocEven_def assms
    by (simp add: render_binsEven_def render_smoothedGraph_def render_cols_def render_plotW_def
        render_plot_def render_hexWidth_def render_hexR_def render_evenRowCount_def
        render_rows_def render_lastY_def render_firstY_def render_vertStep_def)
  have o: "render_allocOdd (st\<lparr>userOrder := uo\<rparr>) g = render_allocOdd (st\<lparr>userOrder := uo'\<rparr>) g"
    unfolding render_allocOdd_def assms
    by (simp add: render_binsOdd_def render_smoothedGraph_def render_cols_def render_plotW_def
        render_plot_def render_hexWidth_def render_hexR_def render_oddRowCount_def
        render_rows_def render_lastY_def render_firstY_def render_vertStep_def)
  have m: "render_cellMap (st\<lparr>userOrder := uo\<rparr>) g = render_cellMap (st\<lparr>userOrder := uo'\<rparr>) g"
    unfolding render_cellMap_def e o
    by (simp add: render_cols_def render_plotW_def render_plot_def render_hexWidth_def
        render_hexR_def render_rows_def render_lastY_def render_firstY_def render_vertStep_def
        render_startXEven_def)
  show ?thesis
    unfolding render_hexCells_def m
    by (simp add: render_binsEven_def render_binsOdd_def render_smoothedGraph_def render_cols_def
        render_plotW_def render_plot_def render_hexWidth_def render_hexR_def)
qed

lemma render_activeOrder_mismatch:
  assumes "length u \<noteq> length (mock_series g)"
  shows "render_activeOrder (st\<lparr>userOrder := Some u\<rparr>) g = render_activeOrder (st\<lparr>userOrder := None\<rparr>) g"
  using assms
  by (simp add: render_activeOrder_def activeOrder_def length_render_computedGlobalOrder
      render_computedGlobalOrder_userOrder)

text \<open>
  An example: three series with the shares \<open>3/8\<close>, \<open>1/8\<close>, \<open>1/2\<close> at each of three
  samples, on a canvas of 100 by 60 with hexes of size 10 and no smoothing. The hex width
  is \<open>10 * sqrt 3\<close>, about 17.3, so the plot of width 60 has three columns, and it has
  one row. The bin size is 1; an even bin holds one sample and an odd bin up to two. All
  bins of both parities are \<open>[3/8, 1/8, 1/2]\<close>, the computed order is \<open>[2, 0, 1]\<close>, and
  without an override the three cells of the row hold series 2. Every number of the
  example is a double and no operation rounds.
\<close>

lemma sqrt3_bounds: "3 / 2 < sqrt 3" "sqrt 3 < 2"
proof -
  have "sqrt ((3 / 2)\<^sup>2) < sqrt 3"
    by (subst real_sqrt_less_iff) (simp add: power2_eq_square)
  then show "3 / 2 < sqrt 3" by simp
  have "sqrt 3 < sqrt (2\<^sup>2)"
    by (subst real_sqrt_less_iff) simp
  then show "sqrt 3 < 2" by simp
qed

lemma render_grid_example:
  assumes "clientWidth st = 100" and "clientHeight st = 60" and "hexSize st = 10"
  shows "render_cols st = 3" and "render_rows st = Suc 0"
proof -
  have "3 \<le> 60 / (sqrt 3 * 10)" "60 / (sqrt 3 * 10) < 4"
    using sqrt3_bounds by (simp_all add: field_simps)
  then have "\<lfloor>60 / (sqrt 3 * 10)\<rfloor> = 3" by linarith
  with assms show "render_cols st = 3"
    by (simp add: render_cols_def render_plotW_def render_plot_def render_hexWidth_def
        render_hexR_def)
  from assms show "render_rows st = Suc 0"
    by (simp add: render_rows_def render_lastY_def render_firstY_def render_plot_def
        render_vertStep_def render_hexR_def)
qed

lemma render_rowCounts_example:
  assumes "clientWidth st = 100" and "clientHeight st = 60" and "hexSize st = 10"
  shows "render_evenRowCount st = Suc 0" and "render_oddRowCount st = 0"
proof -
  have "\<lceil>1 / 2 :: real\<rceil> = 1" "\<lfloor>1 / 2 :: real\<rfloor> = 0" by linarith+
  then show "render_evenRowCount st = Suc 0" "render_oddRowCount st = 0"
    by (simp_all add: render_evenRowCount_def render_oddRowCount_def
        render_grid_example [OF assms])
qed

lemma aggregateBins_example:
  "aggregateBins exampleShares 3 shift
     = [[Num (3 / 8), Num (1 / 8), Num (1 / 2)], [Num (3 / 8), Num (1 / 8), Num (1 / 2)],
        [Num (3 / 8), Num (1 / 8), Num (1 / 2)]]"
proof -
  have c: "\<lceil>3 / 2 :: real\<rceil> = 2" "\<lceil>5 / 2 :: real\<rceil> = 3" "\<lceil>7 / 2 :: real\<rceil> = 4"
    "\<lfloor>1 / 2 :: real\<rfloor> = 0" "\<lfloor>3 / 2 :: real\<rfloor> = 1" "\<lfloor>5 / 2 :: real\<rfloor> = 2"
    by linarith+
  show ?thesis
    by (cases shift)
      (simp_all add: aggregateBins_def aggregateBin_def binRaw_def nth_or_def upt_3 Let_def
        exampleShares_def fmax_def fmin_def c
        upto_rec1 [of 0 0] upto_rec1 [of 0 1] upto_rec1 [of 1 1] upto_rec1 [of 1 2]
        upto_rec1 [of 2 2])
qed

lemma render_bins_example:
  assumes "clientWidth st = 100" and "clientHeight st = 60" and "hexSize st = 10"
    and "smoothPercent st = 0"
  shows "render_binsEven st exampleShares
         = [[Num (3 / 8), Num (1 / 8), Num (1 / 2)], [Num (3 / 8), Num (1 / 8), Num (1 / 2)],
            [Num (3 / 8), Num (1 / 8), Num (1 / 2)]]"
    and "render_binsOdd st exampleShares
         = [[Num (3 / 8), Num (1 / 8), Num (1 / 2)], [Num (3 / 8), Num (1 / 8), Num (1 / 2)],
            [Num (3 / 8), Num (1 / 8), Num (1 / 2)]]"
  using assms(4)
  by (simp_all add: render_binsEven_def render_binsOdd_def render_grid_example [OF assms(1-3)]
      render_smoothedGraph_def smoothGraph_def aggregateBins_example)

lemma length_exampleShares [simp]: "length (mock_series exampleShares) = 3"
  by (simp add: exampleShares_def)

lemma render_computedGlobalOrder_example:
  assumes "clientWidth st = 100" and "clientHeight st = 60" and "hexSize st = 10"
    and "smoothPercent st = 0"
  shows "render_computedGlobalOrder st exampleShares = [2, 0, 1]"
  by (simp add: render_computedGlobalOrder_def render_bins_example [OF assms]
      computeGlobalOrder_def seriesTotals_def addBins_def array_sort_def nth_or_def upt_3 Let_def
      or_zero_def fsub_def fgt_def round_num_minus)

text \<open>
  The one slot of a column of the example sits at \<open>1/2\<close> from the bottom. Under the
  computed order \<open>[2, 0, 1]\<close> the cumulative values are \<open>[1/2, 7/8, 1]\<close> and the slot
  holds series 2; under the order \<open>[0, 1, 2]\<close> they are \<open>[3/8, 1/2, 1]\<close> and the slot
  holds series 1.
\<close>

lemma columnShares_example2:
  "columnShares [Num (3 / 8), Num (1 / 8), Num (1 / 2)] (Suc (Suc (Suc 0)))
     = [Num (3 / 8), Num (1 / 8), Num (1 / 2)]"
  by (simp add: columnShares_def nth_or_def fmax_def fgt_def upt_rec [of 0] upt_rec [of "Suc 0"]
      upt_rec [of "Suc (Suc 0)"] Let_def)

lemma columnAllocation_example:
  "columnAllocation [Num (3 / 8), Num (1 / 8), Num (1 / 2)] (Suc 0) [2, 0, Suc 0] = [Some 2]"
  "columnAllocation [Num (3 / 8), Num (1 / 8), Num (1 / 2)] (Suc 0) [0, Suc 0, 2] = [Some 1]"
proof -
  have cum: "columnCum [Num (3 / 8), Num (1 / 8), Num (1 / 2)] [2, 0, Suc 0]
      = [Num (1 / 2), Num (7 / 8), Num 1]"
    "columnCum [Num (3 / 8), Num (1 / 8), Num (1 / 2)] [0, Suc 0, 2]
      = [Num (3 / 8), Num (1 / 2), Num 1]"
    by (simp_all add: columnCum_def columnShares_example2 nth_or_def Let_def)
  have y: "slotPosition (Suc 0) 0 = Num (1 / 2)"
    by (simp add: slotPosition_def fsub_def Let_def)
  have "pickBand [Num (1 / 2), Num (7 / 8), Num 1] (Suc (Suc (Suc 0))) (Num (1 / 2)) 0 = 0"
    "pickBand [Num (3 / 8), Num (1 / 2), Num 1] (Suc (Suc (Suc 0))) (Num (1 / 2)) 0 = Suc 0"
    by (simp_all add: pickBand.simps [of _ _ _ 0] pickBand.simps [of _ _ _ "Suc 0"] fgt_def)
  then show "columnAllocation [Num (3 / 8), Num (1 / 8), Num (1 / 2)] (Suc 0) [2, 0, Suc 0] = [Some 2]"
    "columnAllocation [Num (3 / 8), Num (1 / 8), Num (1 / 2)] (Suc 0) [0, Suc 0, 2] = [Some 1]"
    by (simp_all add: columnAllocation_def cum rowSlot_def y nth_opt_def Let_def)
qed

text \<open>
  The series of the cells render builds on the example, for an active order under which
  every column's slot holds the series \<open>s\<close>.
\<close>

lemma render_hexCells_series_example:
  assumes "clientWidth st = 100" and "clientHeight st = 60" and "hexSize st = 10"
    and "smoothPercent st = 0"
    and alloc: "columnAllocation [Num (3 / 8), Num (1 / 8), Num (1 / 2)] (Suc 0)
        (render_activeOrder st exampleShares) = [Some s]"
  shows "map cell_series (render_hexCells st exampleShares) = [s, s, s]"
proof -
  let ?g = "exampleShares"
  have even: "render_allocEven st ?g = [[Some s], [Some s], [Some s]]"
    by (simp add: render_allocEven_def render_bins_example [OF assms(1-4)]
        render_rowCounts_example [OF assms(1-3)] buildAllocations_def alloc)
  have cells: "map (\<lambda>c. (map_col c, map_series c)) (render_cellMap st ?g ! 0)
        = [(0, s), (Suc 0, s), (2, s)]"
    and len: "length (render_cellMap st ?g) = Suc 0"
    using sqrt3_bounds assms(1-3)
    by (simp_all add: render_cellMap_def render_grid_example [OF assms(1-3)] buildCellMap_def
        buildCellRow_def render_startXEven_def render_plot_def render_hexWidth_def render_hexR_def
        even chosenSeries_def nth_opt_def upt_3 Let_def)
  have "map cell_series (render_hexCells st ?g) = map map_series (render_cellMap st ?g ! 0)"
    by (simp add: render_hexCells_def len makeHexCell_def Let_def comp_def)
  also have "\<dots> = map snd (map (\<lambda>c. (map_col c, map_series c)) (render_cellMap st ?g ! 0))"
    by (simp add: comp_def)
  also have "\<dots> = [s, s, s]" unfolding cells by simp
  finally show ?thesis .
qed

lemma render_hexCells_example:
  assumes "clientWidth st = 100" and "clientHeight st = 60" and "hexSize st = 10"
    and "smoothPercent st = 0" and "userOrder st = None"
  shows "map cell_series (render_hexCells st exampleShares) = [2, 2, 2]"
proof -
  have "render_activeOrder st exampleShares = [2, 0, Suc 0]"
    using assms(5)
    by (simp add: render_activeOrder_def activeOrder_def
        render_computedGlobalOrder_example [OF assms(1-4)])
  then show ?thesis
    by (intro render_hexCells_series_example assms) (simp add: columnAllocation_example)
qed

lemma render_hexCells_example_override:
  assumes "clientWidth st = 100" and "clientHeight st = 60" and "hexSize st = 10"
    and "smoothPercent st = 0" and "userOrder st = Some [0, 1, 2]"
  shows "map cell_series (render_hexCells st exampleShares) = [1, 1, 1]"
proof -
  have "render_activeOrder st exampleShares = [0, Suc 0, 2]"
    using assms(5)
    by (simp add: render_activeOrder_def activeOrder_def
        render_computedGlobalOrder_example [OF assms(1-4)])
  then show ?thesis
    by (intro render_hexCells_series_example assms) (simp add: columnAllocation_example)
qed
section \<open>The cells of a render and the order\<close>

text \<open>render builds the cells of the grid allocated with its active order.\<close>

lemma render_hexCells_cellsWithOrder:
  "render_hexCells st g = cellsWithOrder st g (render_activeOrder st g)"
  by (simp add: render_hexCells_def cellsWithOrder_def render_cellMap_def render_allocEven_def
      render_allocOdd_def Let_def)

lemma cellsWithOrder_userOrder:
  "cellsWithOrder (st\<lparr>userOrder := uo\<rparr>) g order = cellsWithOrder st g order"
  unfolding cellsWithOrder_def render_consts by simp

lemma render_activeOrder_cases:
  "userOrder st = Some u \<Longrightarrow> length u = length (mock_series g) \<Longrightarrow> render_activeOrder st g = u"
  "userOrder st = Some u \<Longrightarrow> length u \<noteq> length (mock_series g) \<Longrightarrow>
     render_activeOrder st g = render_computedGlobalOrder st g"
  "userOrder st = None \<Longrightarrow> render_activeOrder st g = render_computedGlobalOrder st g"
  by (simp_all add: render_activeOrder_def activeOrder_def length_render_computedGlobalOrder)

lemma render_hex_view:
  assumes "graphData st = Some g" and "showHex st" and "hexSize st \<noteq> 0"
  shows "render st = Inr (st\<lparr>cachedColorCount := length (mock_series g),
            lastPlot := Some (render_plot st),
            hexCells := cellsWithOrder st g (render_activeOrder st g)\<rparr>)"
  using assms by (simp add: render_def Let_def render_hexCells_cellsWithOrder)

text \<open>
  The series of the cells of the example grid, for an order under which the slot of
  every column holds the series \<open>s\<close>.
\<close>

lemma cellsWithOrder_series_example:
  assumes "clientWidth st = 100" and "clientHeight st = 60" and "hexSize st = 10"
    and "smoothPercent st = 0"
    and alloc: "columnAllocation [Num (3 / 8), Num (1 / 8), Num (1 / 2)] (Suc 0) order = [Some s]"
  shows "map cell_series (cellsWithOrder st exampleShares order) = [s, s, s]"
proof -
  have even: "buildAllocations (render_binsEven st exampleShares) (render_evenRowCount st) order
      = [[Some s], [Some s], [Some s]]"
    by (simp add: render_bins_example [OF assms(1-4)]
        render_rowCounts_example [OF assms(1-3)] buildAllocations_def alloc)
  let ?m = "buildCellMap (clientWidth st) (render_cols st) (render_rows st)
      (render_startXEven st) (render_hexWidth st) (render_firstY st) (render_vertStep st)
      [[Some s], [Some s], [Some s]]
      (buildAllocations (render_binsOdd st exampleShares) (render_oddRowCount st) order)"
  have cells: "map (\<lambda>c. (map_col c, map_series c)) (?m ! 0) = [(0, s), (Suc 0, s), (2, s)]"
    and len: "length ?m = Suc 0"
    using sqrt3_bounds assms(1-3)
    by (simp_all add: render_grid_example [OF assms(1-3)] buildCellMap_def
        buildCellRow_def render_startXEven_def render_plot_def render_hexWidth_def render_hexR_def
        chosenSeries_def nth_opt_def upt_3 Let_def)
  have "map cell_series (cellsWithOrder st exampleShares order) = map map_series (?m ! 0)"
    by (simp add: cellsWithOrder_def even len makeHexCell_def Let_def comp_def)
  also have "\<dots> = map snd (map (\<lambda>c. (map_col c, map_series c)) (?m ! 0))"
    by (simp add: comp_def)
  also have "\<dots> = [s, s, s]" unfolding cells by simp
  finally show ?thesis .
qed
section \<open>Claims\<close>

subsection \<open>C4: the computed Global Order\<close>



subsection \<open>C5: bands are stacked in the order\<close>

text \<open>
  C5: in every column of an Allocation Table built with a permutation \<open>order\<close> of
  \<open>sCount \<ge> 1\<close> series, a row slot \<open>r2\<close> at or below a row slot \<open>r1\<close> (\<open>r1 \<le> r2\<close>, 0 = top)
  holds a series whose position in \<open>order\<close> is at most that of the series of \<open>r1\<close>:
  scanning from the bottom slot up to the top, the positions never decrease.
\<close>

theorem C5_allocation_monotone:
  assumes perm: "isPermutation order" and ne: "order \<noteq> []"
    and c: "c < length distTable" and r12: "r1 \<le> r2" and r2: "r2 < rows"
  shows "\<exists>s1 s2 p1 p2.
     buildAllocations distTable rows order ! c ! r1 = Some s1 \<and>
     buildAllocations distTable rows order ! c ! r2 = Some s2 \<and>
     positionIn order s1 = Some p1 \<and> positionIn order s2 = Some p2 \<and> p2 \<le> p1"
proof -
  let ?cum = "columnCum (distTable ! c) order"
  let ?k1 = "pickBand ?cum (length order) (slotPosition rows r1) 0"
  let ?k2 = "pickBand ?cum (length order) (slotPosition rows r2) 0"
  from r12 r2 have r1: "r1 < rows" by simp
  from perm have d: "distinct order" by (simp add: isPermutation_def)
  from ne have n: "0 < length order" by simp
  have k1: "?k1 < length order" and a1: "rowSlot ?cum order rows r1 = Some (order ! ?k1)"
    by (rule rowSlot_pick [OF ne])+
  have k2: "?k2 < length order" and a2: "rowSlot ?cum order rows r2 = Some (order ! ?k2)"
    by (rule rowSlot_pick [OF ne])+
  have "?k2 \<le> ?k1"
    using n slotPosition_mono [OF r12] by (rule pickBand_mono)
  moreover have "positionIn order (order ! ?k1) = Some ?k1"
    "positionIn order (order ! ?k2) = Some ?k2"
    using d k1 k2 by (simp_all add: positionIn_nth)
  ultimately show ?thesis
    using a1 a2 by (simp add: buildAllocations_nth [OF c r1] buildAllocations_nth [OF c r2])
qed

theorem C5_allocation_monotone_witness:
  "isPermutation [2, 0, 1] \<and> [2, 0, 1] \<noteq> ([] :: nat list) \<and>
   (0 :: nat) < length [[Num (1 / 2), Num (1 / 4), Num (1 / 4)]] \<and> (0 :: nat) \<le> 3 \<and> (3 :: nat) < 4 \<and>
   (\<exists>s1 s2 p1 p2.
     buildAllocations [[Num (1 / 2), Num (1 / 4), Num (1 / 4)]] 4 [2, 0, 1] ! 0 ! 0 = Some s1 \<and>
     buildAllocations [[Num (1 / 2), Num (1 / 4), Num (1 / 4)]] 4 [2, 0, 1] ! 0 ! 3 = Some s2 \<and>
     positionIn [2, 0, 1] s1 = Some p1 \<and> positionIn [2, 0, 1] s2 = Some p2 \<and> p2 \<le> p1)"
proof -
  have perm: "isPermutation [2, 0, 1]" by (simp add: isPermutation_def)
  have ne: "[2, 0, 1] \<noteq> ([] :: nat list)" by simp
  have c: "(0 :: nat) < length [[Num (1 / 2), Num (1 / 4), Num (1 / 4)]]" by simp
  have r12: "(0 :: nat) \<le> 3" by simp
  have r2: "(3 :: nat) < 4" by simp
  from C5_allocation_monotone [OF perm ne c r12 r2] perm c show ?thesis
    by simp
qed

subsection \<open>C6: every slot holds one series\<close>

text \<open>
  C6: for every table, every permutation \<open>order\<close> of \<open>sCount \<ge> 1\<close> series and every
  row count \<open>rows \<ge> 0\<close>, the result has one column per column of the table, each of
  \<open>rows\<close> slots, and every slot holds a series index below \<open>sCount\<close> (never
  \<open>undefined\<close>); with \<open>rows = 0\<close> every column is empty.
\<close>

theorem C6_allocation_coverage:
  assumes perm: "isPermutation order" and ne: "order \<noteq> []"
  shows "length (buildAllocations distTable rows order) = length distTable \<and>
     (\<forall>c < length distTable.
        length (buildAllocations distTable rows order ! c) = rows \<and>
        (\<forall>r < rows. \<exists>s < length order.
           buildAllocations distTable rows order ! c ! r = Some s)) \<and>
     (rows = 0 \<longrightarrow> buildAllocations distTable rows order = replicate (length distTable) [])"
proof -
  have inr: "\<forall>s \<in> set order. s < length order"
    using perm by (simp add: isPermutation_def list_all_iff)
  have slot: "\<exists>s < length order. buildAllocations distTable rows order ! c ! r = Some s"
    if c: "c < length distTable" and r: "r < rows" for c r
  proof -
    obtain k where k: "k < length order"
      and a: "rowSlot (columnCum (distTable ! c) order) order rows r = Some (order ! k)"
      using rowSlot_pick [OF ne, of "columnCum (distTable ! c) order" rows r] by blast
    from k inr have "order ! k < length order" by simp
    with a show ?thesis by (simp add: buildAllocations_nth [OF c r])
  qed
  have len: "length (buildAllocations distTable rows order ! c) = rows"
    if "c < length distTable" for c
    using that by (simp add: buildAllocations_def columnAllocation_def Let_def)
  have empty: "buildAllocations distTable 0 order = replicate (length distTable) []"
    by (simp add: buildAllocations_def columnAllocation_def Let_def map_replicate_const)
  have "length (buildAllocations distTable rows order) = length distTable"
    by (simp add: buildAllocations_def)
  with slot len empty show ?thesis by blast
qed

theorem C6_allocation_coverage_witness:
  "isPermutation [2, 0, 1] \<and> [2, 0, 1] \<noteq> ([] :: nat list) \<and>
   length (buildAllocations [[Num (1 / 2), Num (1 / 4), Num (1 / 4)]] 4 [2, 0, 1]) = 1 \<and>
   length (buildAllocations [[Num (1 / 2), Num (1 / 4), Num (1 / 4)]] 4 [2, 0, 1] ! 0) = 4 \<and>
   (\<exists>s < length [2, 0, 1 :: nat].
      buildAllocations [[Num (1 / 2), Num (1 / 4), Num (1 / 4)]] 4 [2, 0, 1] ! 0 ! 2 = Some s) \<and>
   buildAllocations [[Num (1 / 2), Num (1 / 4), Num (1 / 4)]] 0 [2, 0, 1] = [[]]"
proof -
  let ?t = "[[Num (1 / 2), Num (1 / 4), Num (1 / 4)]]"
  let ?o = "[2, 0, 1 :: nat]"
  have perm: "isPermutation ?o" by (simp add: isPermutation_def)
  have ne: "?o \<noteq> []" by simp
  from C6_allocation_coverage [OF perm ne, of ?t 4]
  have len: "length (buildAllocations ?t 4 ?o) = length ?t"
    and cols: "\<forall>c < length ?t. length (buildAllocations ?t 4 ?o ! c) = 4 \<and>
        (\<forall>r < 4. \<exists>s < length ?o. buildAllocations ?t 4 ?o ! c ! r = Some s)"
    by blast+
  from cols have col0: "length (buildAllocations ?t 4 ?o ! 0) = 4"
    and slots: "\<forall>r < 4. \<exists>s < length ?o. buildAllocations ?t 4 ?o ! 0 ! r = Some s"
    by simp_all
  from slots have "(2 :: nat) < 4 \<longrightarrow> (\<exists>s < length ?o. buildAllocations ?t 4 ?o ! 0 ! 2 = Some s)"
    by (rule spec)
  then have slot2: "\<exists>s < length ?o. buildAllocations ?t 4 ?o ! 0 ! 2 = Some s" by simp
  from C6_allocation_coverage [OF perm ne, of ?t 0]
  have "buildAllocations ?t 0 ?o = replicate (length ?t) []" by blast
  then have empty: "buildAllocations ?t 0 ?o = [[]]" by simp
  from perm ne len col0 slot2 empty show ?thesis by simp
qed

subsection \<open>C7: the moving average at small windows\<close>

text \<open>
  C7 as stated (every window size \<open>\<le> 2\<close> returns the input unchanged) fails at window
  size 2: \<open>half = 1\<close>, so each output is the mean of up to three neighbours.
  On \<open>[1, 2, 3]\<close> the first output is \<open>(1 + 2) / 2\<close>.
\<close>

theorem C7_movingAverage_window_2_counterexample:
  "fle (Num 2) (Num 2) \<and>
   movingAverage [Num 1, Num 2, Num 3] (Num 2) = [Num (3 / 2), Num 2, Num (5 / 2)] \<and>
   movingAverage [Num 1, Num 2, Num 3] (Num 2) \<noteq> [Num 1, Num 2, Num 3]"
  by (simp add: movingAverage_def upt_3 numeral_2_eq_2 fsub_def fmax_def fmin_def nth_or_def
      round_num_minus Let_def)

text \<open>
  C7, amended: for every input array and every window size \<open>\<le> 1\<close>, movingAverage
  returns a copy of the input array unchanged (the guard of the source is
  \<open>windowSamples <= 1\<close>).
\<close>

theorem C7_movingAverage_noop:
  "fle windowSamples (Num 1) \<Longrightarrow> movingAverage arr windowSamples = arr"
  by (simp add: movingAverage_def)

theorem C7_movingAverage_noop_witness:
  "fle (Num 1) (Num 1) \<and> movingAverage [Num 1, Num 2, Num 3] (Num 1) = [Num 1, Num 2, Num 3]"
  using C7_movingAverage_noop [of "Num 1" "[Num 1, Num 2, Num 3]"] by simp

text \<open>
  The 2 of the specification is the threshold of render on the smoothing percent: at a
  percent \<open>\<le> 2\<close> the matrix is not smoothed at all, while a larger percent can give the
  window size 2 (3 percent of 50 samples: \<open>50 * 0.03\<close> rounds to \<open>1.5\<close>, and
  \<open>Math.round\<close> gives 2).
\<close>

lemma smoothGraph_percent_le_2: "percent \<le> 2 \<Longrightarrow> smoothGraph percent g = g"
  by (simp add: smoothGraph_def)

lemma smoothGraph_window_2:
  assumes "length (mock_x g) = 50"
  shows "mock_series (smoothGraph 3 g) = map (\<lambda>s. movingAverage s (Num 2)) (mock_series g)"
proof -
  have f: "round_num (3 / 100) = Num (1080863910568919 / 2 ^ 55)"
    by (subst round_num_scaled [where k = 58]) (simp_all add: rne_def)
  have "fmul (Num 50) (fdiv (Num 3) (Num 100)) = round_num (50 * (1080863910568919 / 2 ^ 55))"
    by (simp add: f)
  also have "\<dots> = Num (3 / 2)"
    by (subst round_num_scaled [where k = 52]) (simp_all add: rne_def)
  finally have w: "fround (fmul (Num 50) (fdiv (Num 3) (Num 100))) = Num 2"
    by simp
  show ?thesis
    using assms by (simp add: smoothGraph_def Let_def w fmax_def del: fdiv.simps fmul.simps)
qed
subsection \<open>C8: the order used for allocation\<close>

text \<open>
  C8: in the hex view, for a state with data \<open>g\<close> and a hex size other than 0, render
  succeeds and leaves in \<open>hexCells\<close> the cells of the grid allocated
  \<^item> with the user override \<open>u\<close>, when one is present and has as many entries as there
    are series;
  \<^item> with the computed Global Order, when the override has another length (the override
    stays in the state, nothing is raised), and when there is none;
  \<^item> with the computed Global Order, in the render after the reset handler cleared the
    override.

  In any view and with any hex size, a render with an override of another length does
  what the render without an override does, error or not.
\<close>

theorem C8_active_order:
  "(graphData st = Some g \<and> showHex st \<and> hexSize st \<noteq> 0 \<longrightarrow>
      (userOrder st = Some u \<and> length u = length (mock_series g) \<longrightarrow>
         (\<exists>st'. render st = Inr st' \<and> hexCells st' = cellsWithOrder st g u)) \<and>
      (userOrder st = Some u \<and> length u \<noteq> length (mock_series g) \<longrightarrow>
         (\<exists>st'. render st = Inr st' \<and> userOrder st' = Some u \<and>
            hexCells st' = cellsWithOrder st g (render_computedGlobalOrder st g))) \<and>
      (userOrder st = None \<longrightarrow>
         (\<exists>st'. render st = Inr st' \<and>
            hexCells st' = cellsWithOrder st g (render_computedGlobalOrder st g))) \<and>
      (\<exists>st'. render (resetOrder st) = Inr st' \<and>
         hexCells st' = cellsWithOrder st g (render_computedGlobalOrder st g))) \<and>
   (graphData st = Some g \<and> length u \<noteq> length (mock_series g) \<longrightarrow>
      render (st\<lparr>userOrder := Some u\<rparr>)
        = map_sum id (\<lambda>s. s\<lparr>userOrder := Some u\<rparr>) (render (st\<lparr>userOrder := None\<rparr>)))"
proof (intro conjI impI)
  assume h: "graphData st = Some g \<and> showHex st \<and> hexSize st \<noteq> 0"
  then have run: "render st = Inr (st\<lparr>cachedColorCount := length (mock_series g),
      lastPlot := Some (render_plot st),
      hexCells := cellsWithOrder st g (render_activeOrder st g)\<rparr>)"
    by (intro render_hex_view) simp_all
  {
    assume "userOrder st = Some u \<and> length u = length (mock_series g)"
    then have "render_activeOrder st g = u" by (simp add: render_activeOrder_cases)
    with run show "\<exists>st'. render st = Inr st' \<and> hexCells st' = cellsWithOrder st g u"
      by simp
  }
  {
    assume a: "userOrder st = Some u \<and> length u \<noteq> length (mock_series g)"
    then have "render_activeOrder st g = render_computedGlobalOrder st g"
      by (simp add: render_activeOrder_cases)
    with run a show "\<exists>st'. render st = Inr st' \<and> userOrder st' = Some u \<and>
        hexCells st' = cellsWithOrder st g (render_computedGlobalOrder st g)"
      by simp
  }
  {
    assume "userOrder st = None"
    then have "render_activeOrder st g = render_computedGlobalOrder st g"
      by (simp add: render_activeOrder_cases)
    with run show "\<exists>st'. render st = Inr st' \<and>
        hexCells st' = cellsWithOrder st g (render_computedGlobalOrder st g)"
      by simp
  }
  have "render (resetOrder st) = Inr (resetOrder st\<lparr>cachedColorCount := length (mock_series g),
      lastPlot := Some (render_plot (resetOrder st)),
      hexCells := cellsWithOrder (resetOrder st) g (render_activeOrder (resetOrder st) g)\<rparr>)"
    using h by (intro render_hex_view) (simp_all add: resetOrder_def)
  moreover have "render_activeOrder (resetOrder st) g = render_computedGlobalOrder st g"
    by (simp add: resetOrder_def render_activeOrder_cases render_computedGlobalOrder_userOrder)
  moreover have "cellsWithOrder (resetOrder st) g (render_computedGlobalOrder st g)
      = cellsWithOrder st g (render_computedGlobalOrder st g)"
    by (simp add: resetOrder_def cellsWithOrder_userOrder)
  ultimately show "\<exists>st'. render (resetOrder st) = Inr st' \<and>
      hexCells st' = cellsWithOrder st g (render_computedGlobalOrder st g)"
    by simp
next
  assume a: "graphData st = Some g \<and> length u \<noteq> length (mock_series g)"
  then have "render_hexCells (st\<lparr>userOrder := Some u\<rparr>) g = render_hexCells (st\<lparr>userOrder := None\<rparr>) g"
    by (intro render_hexCells_userOrder render_activeOrder_mismatch) simp
  with a show "render (st\<lparr>userOrder := Some u\<rparr>)
        = map_sum id (\<lambda>s. s\<lparr>userOrder := Some u\<rparr>) (render (st\<lparr>userOrder := None\<rparr>))"
    by (simp add: render_def Let_def render_plot_def)
qed

text \<open>
  The example table (three series with shares \<open>3/8\<close>, \<open>1/8\<close>, \<open>1/2\<close>) on a canvas of 100
  by 60 with hexes of size 10: the grid has three cells. The computed order is
  \<open>[2, 0, 1]\<close>. Under the override \<open>[0, 1, 2]\<close> render gives the three cells to series
  1; under the override \<open>[1, 0]\<close>, of another length, it gives them to series 2 and keeps
  the override, as the render without an override does apart from the override; after
  the reset it gives them to series 2, as the computed order does.
\<close>

theorem C8_active_order_witness:
  "(\<exists>st'. render \<lparr>graphData = Some exampleShares, showHex = True,
        userOrder = Some [0, 1, 2], hexCells = [], lastPlot = None, cachedColorCount = 0,
        clientWidth = 100, clientHeight = 60, hexSize = 10, smoothPercent = 0\<rparr> = Inr st' \<and>
      map cell_series (hexCells st') = [1, 1, 1]) \<and>
   (\<exists>st'. render \<lparr>graphData = Some exampleShares, showHex = True,
        userOrder = Some [1, 0], hexCells = [], lastPlot = None, cachedColorCount = 0,
        clientWidth = 100, clientHeight = 60, hexSize = 10, smoothPercent = 0\<rparr> = Inr st' \<and>
      userOrder st' = Some [1, 0] \<and> map cell_series (hexCells st') = [2, 2, 2]) \<and>
   (\<exists>st'. render (resetOrder \<lparr>graphData = Some exampleShares, showHex = True,
        userOrder = Some [0, 1, 2], hexCells = [], lastPlot = None, cachedColorCount = 0,
        clientWidth = 100, clientHeight = 60, hexSize = 10, smoothPercent = 0\<rparr>) = Inr st' \<and>
      map cell_series (hexCells st') = [2, 2, 2]) \<and>
   (\<exists>st'. render \<lparr>graphData = Some exampleShares, showHex = True,
        userOrder = None, hexCells = [], lastPlot = None, cachedColorCount = 0,
        clientWidth = 100, clientHeight = 60, hexSize = 10, smoothPercent = 0\<rparr> = Inr st' \<and>
      map cell_series (hexCells st') = [2, 2, 2]) \<and>
   render \<lparr>graphData = Some exampleShares, showHex = True,
        userOrder = Some [1, 0], hexCells = [], lastPlot = None, cachedColorCount = 0,
        clientWidth = 100, clientHeight = 60, hexSize = 10, smoothPercent = 0\<rparr>
     = map_sum id (\<lambda>s. s\<lparr>userOrder := Some [1, 0]\<rparr>)
         (render \<lparr>graphData = Some exampleShares, showHex = True,
            userOrder = None, hexCells = [], lastPlot = None, cachedColorCount = 0,
            clientWidth = 100, clientHeight = 60, hexSize = 10, smoothPercent = 0\<rparr>) \<and>
   render_computedGlobalOrder \<lparr>graphData = Some exampleShares, showHex = True,
        userOrder = Some [0, 1, 2], hexCells = [], lastPlot = None, cachedColorCount = 0,
        clientWidth = 100, clientHeight = 60, hexSize = 10, smoothPercent = 0\<rparr> exampleShares
     = [2, 0, 1]"
proof -
  let ?st = "\<lambda>uo. \<lparr>graphData = Some exampleShares, showHex = True,
        userOrder = uo, hexCells = [], lastPlot = None, cachedColorCount = 0,
        clientWidth = 100, clientHeight = 60, hexSize = 10, smoothPercent = 0\<rparr>"
  have h: "graphData (?st uo) = Some exampleShares \<and> showHex (?st uo) \<and> hexSize (?st uo) \<noteq> 0"
    for uo by simp
  have computed: "render_computedGlobalOrder (?st uo) exampleShares = [2, 0, Suc 0]" for uo
    by (subst render_computedGlobalOrder_example) simp_all
  have series: "map cell_series (cellsWithOrder (?st uo) exampleShares [2, 0, Suc 0]) = [2, 2, 2]"
    "map cell_series (cellsWithOrder (?st uo) exampleShares [0, Suc 0, 2]) = [1, 1, 1]" for uo
    by (subst cellsWithOrder_series_example; simp add: columnAllocation_example)+
  have valid: "userOrder (?st (Some [0, 1, 2])) = Some [0, 1, 2] \<and>
      length [0, 1, 2 :: nat] = length (mock_series exampleShares)"
    by simp
  have mismatch: "userOrder (?st (Some [1, 0])) = Some [1, 0] \<and>
      length [1, 0 :: nat] \<noteq> length (mock_series exampleShares)"
    by simp
  from C8_active_order [of "?st (Some [0, 1, 2])" exampleShares "[0, 1, 2]"] h valid
  obtain st1 where st1: "render (?st (Some [0, 1, 2])) = Inr st1"
    "hexCells st1 = cellsWithOrder (?st (Some [0, 1, 2])) exampleShares [0, 1, 2]"
    by blast
  from C8_active_order [of "?st (Some [1, 0])" exampleShares "[1, 0]"] h mismatch
  obtain st2 where st2: "render (?st (Some [1, 0])) = Inr st2" "userOrder st2 = Some [1, 0]"
    "hexCells st2 = cellsWithOrder (?st (Some [1, 0])) exampleShares
       (render_computedGlobalOrder (?st (Some [1, 0])) exampleShares)"
    by blast
  from C8_active_order [of "?st (Some [0, 1, 2])" exampleShares "[0, 1, 2]"] h
  obtain st3 where st3: "render (resetOrder (?st (Some [0, 1, 2]))) = Inr st3"
    "hexCells st3 = cellsWithOrder (?st (Some [0, 1, 2])) exampleShares
       (render_computedGlobalOrder (?st (Some [0, 1, 2])) exampleShares)"
    by blast
  from C8_active_order [of "?st None" exampleShares "[1, 0]"] h
  obtain st4 where st4: "render (?st None) = Inr st4"
    "hexCells st4 = cellsWithOrder (?st None) exampleShares
       (render_computedGlobalOrder (?st None) exampleShares)"
    by auto
  from C8_active_order [of "?st None" exampleShares "[1, 0]"]
  have same: "render (?st (Some [1, 0]))
      = map_sum id (\<lambda>s. s\<lparr>userOrder := Some [1, 0]\<rparr>) (render (?st None))"
    by simp
  have c4: "map cell_series (hexCells st4) = [2, 2, 2]"
    using series(1) [of None] by (simp add: st4(2) computed)
  have c1: "map cell_series (hexCells st1) = [1, 1, 1]"
    using series(2) [of "Some [0, 1, 2]"] by (simp add: st1(2))
  have c2: "map cell_series (hexCells st2) = [2, 2, 2]"
    using series(1) [of "Some [1, 0]"] by (simp add: st2(3) computed)
  have c3: "map cell_series (hexCells st3) = [2, 2, 2]"
    using series(1) [of "Some [0, 1, 2]"] by (simp add: st3(2) computed)
  from st1(1) c1 st2(1,2) c2 st3(1) c3 st4(1) c4 same computed [of "Some [0, 1, 2]"]
  show ?thesis
    by (intro conjI exI [of _ st1] exI [of _ st2] exI [of _ st3] exI [of _ st4]) simp_all
qed
subsection \<open>C10: the bounding-box filter of the hit-test\<close>

text \<open>
  C10: a point \<open>(x, y)\<close> the ray-casting test accepts for a polygon lies in the bounding
  box render computes for the polygon, which is the minimum and maximum of the
  vertices' coordinates: \<open>minX \<le> x \<le> maxX\<close> and \<open>minY \<le> y \<le> maxY\<close>. Hence the scan
  of the mousemove handler, on cells that carry the bounding box of their polygon,
  returns the cell the scan by the point-in-polygon test alone returns. The cells render
  builds are such cells, with six vertices each, so after a render the hit of the
  mousemove handler is the first cell of \<open>hexCells\<close> whose polygon contains the pointer.
\<close>

theorem C10_bbox_filter_sound:
  "(pointInPoly x y poly \<longrightarrow>
      polyBBox poly =
        \<lparr>minX = Finite (Min (fst ` set poly)), minY = Finite (Min (snd ` set poly)),
         maxX = Finite (Max (fst ` set poly)), maxY = Finite (Max (snd ` set poly))\<rparr> \<and>
      Min (fst ` set poly) \<le> x \<and> x \<le> Max (fst ` set poly) \<and>
      Min (snd ` set poly) \<le> y \<and> y \<le> Max (snd ` set poly)) \<and>
   ((\<forall>c \<in> set cells. cell_bbox c = Some (polyBBox (cell_poly c))) \<longrightarrow>
      findHit mx my cells = findHitByPolygon mx my cells) \<and>
   list_all (\<lambda>c. cell_bbox c = Some (polyBBox (cell_poly c)) \<and> length (cell_poly c) = 6)
     (render_hexCells st g) \<and>
   (render st = Inr st' \<and> graphData st \<noteq> None \<and> showHex st \<longrightarrow>
      mousemoveHit st' mx my = findHitByPolygon mx my (hexCells st'))"
proof (intro conjI impI)
  assume acc: "pointInPoly x y poly"
  then have ne: "poly \<noteq> []" by (auto simp: pointInPoly_def split: if_splits)
  show box: "polyBBox poly =
        \<lparr>minX = Finite (Min (fst ` set poly)), minY = Finite (Min (snd ` set poly)),
         maxX = Finite (Max (fst ` set poly)), maxY = Finite (Max (snd ` set poly))\<rparr>"
    by (rule polyBBox_eq [OF ne])
  from pointInPoly_inside_bbox [OF acc]
  have in_box: "\<not> below x (minX (polyBBox poly))" "\<not> above x (maxX (polyBBox poly))"
    "\<not> below y (minY (polyBBox poly))" "\<not> above y (maxY (polyBBox poly))"
    by (auto simp: outsideBBox_def)
  from in_box(1) show "Min (fst ` set poly) \<le> x" unfolding box by simp
  from in_box(2) show "x \<le> Max (fst ` set poly)" unfolding box by simp
  from in_box(3) show "Min (snd ` set poly) \<le> y" unfolding box by simp
  from in_box(4) show "y \<le> Max (snd ` set poly)" unfolding box by simp
next
  assume "\<forall>c \<in> set cells. cell_bbox c = Some (polyBBox (cell_poly c))"
  then show "findHit mx my cells = findHitByPolygon mx my cells"
    by (rule findHit_findHitByPolygon)
next
  show "list_all (\<lambda>c. cell_bbox c = Some (polyBBox (cell_poly c)) \<and> length (cell_poly c) = 6)
     (render_hexCells st g)"
    unfolding list_all_iff using render_hexCells_bbox by blast
next
  assume a: "render st = Inr st' \<and> graphData st \<noteq> None \<and> showHex st"
  then obtain g' where g': "graphData st = Some g'" by auto
  with a have st': "hexCells st' = render_hexCells st g'" "graphData st' = Some g'" "showHex st'"
    by (auto simp: render_def Let_def split: if_splits)
  have "\<forall>c \<in> set (hexCells st'). cell_bbox c = Some (polyBBox (cell_poly c))"
    unfolding st' using render_hexCells_bbox by blast
  then have "findHit mx my (hexCells st') = findHitByPolygon mx my (hexCells st')"
    by (rule findHit_findHitByPolygon)
  with st' show "mousemoveHit st' mx my = findHitByPolygon mx my (hexCells st')"
    by (simp add: mousemoveHit_def)
qed

text \<open>
  The square with corners \<open>(0, 0)\<close> and \<open>(2, 2)\<close> and the point \<open>(1, 1)\<close>: the test
  accepts it, by the crossing of the edge from \<open>(2, 0)\<close> to \<open>(2, 2)\<close>. And the render of
  the example table on the canvas of 100 by 60, which builds three cells.
\<close>

theorem C10_bbox_filter_sound_witness:
  "pointInPoly 1 1 [(0, 0), (2, 0), (2, 2), (0, 2)] \<and>
   polyBBox [(0, 0), (2, 0), (2, 2), (0, 2)]
     = \<lparr>minX = Finite 0, minY = Finite 0, maxX = Finite 2, maxY = Finite 2\<rparr> \<and>
   Min (fst ` set [(0, 0), (2, 0), (2, 2), (0 :: real, 2 :: real)]) \<le> 1 \<and>
   1 \<le> Max (fst ` set [(0, 0), (2, 0), (2, 2), (0 :: real, 2 :: real)]) \<and>
   findHit 1 1
     [\<lparr>cell_poly = [(0, 0), (2, 0), (2, 2), (0, 2)], cell_cx = 1, cell_cy = 1, cell_series = 0,
       cell_counts = [Num 1000], cell_samples = Num 1000,
       cell_bbox = Some (polyBBox [(0, 0), (2, 0), (2, 2), (0, 2)])\<rparr>]
   = findHitByPolygon 1 1
     [\<lparr>cell_poly = [(0, 0), (2, 0), (2, 2), (0, 2)], cell_cx = 1, cell_cy = 1, cell_series = 0,
       cell_counts = [Num 1000], cell_samples = Num 1000,
       cell_bbox = Some (polyBBox [(0, 0), (2, 0), (2, 2), (0, 2)])\<rparr>] \<and>
   (\<exists>st'.
      render \<lparr>graphData = Some exampleShares,
        showHex = True, userOrder = None, hexCells = [], lastPlot = None,
        cachedColorCount = 0, clientWidth = 100, clientHeight = 60, hexSize = 10,
        smoothPercent = 0\<rparr> = Inr st' \<and>
      length (hexCells st') = 3 \<and>
      mousemoveHit st' 30 30 = findHitByPolygon 30 30 (hexCells st'))"
proof -
  let ?sq = "[(0, 0), (2, 0), (2, 2), (0 :: real, 2 :: real)]"
  let ?cells = "[\<lparr>cell_poly = ?sq, cell_cx = 1, cell_cy = 1, cell_series = 0,
       cell_counts = [Num 1000], cell_samples = Num 1000, cell_bbox = Some (polyBBox ?sq)\<rparr>]"
  let ?g = "exampleShares"
  let ?st = "\<lparr>graphData = Some ?g,
        showHex = True, userOrder = None, hexCells = [], lastPlot = None,
        cachedColorCount = 0, clientWidth = 100, clientHeight = 60, hexSize = 10,
        smoothPercent = 0\<rparr>"
  have acc: "pointInPoly 1 1 ?sq"
    by (simp add: pointInPoly_def edgeIntersect_def)
  have boxes: "\<forall>c \<in> set ?cells. cell_bbox c = Some (polyBBox (cell_poly c))"
    by simp
  obtain st' where run: "render ?st = Inr st'" and cells: "hexCells st' = render_hexCells ?st ?g"
    by (simp add: render_def Let_def)
  have "length (map cell_series (render_hexCells ?st ?g)) = length [2, 2, 2 :: nat]"
    by (subst render_hexCells_example) simp_all
  with cells have three: "length (hexCells st') = 3" by simp
  have hyp: "render ?st = Inr st' \<and> graphData ?st \<noteq> None \<and> showHex ?st"
    using run by simp
  note t = C10_bbox_filter_sound [where x = 1 and y = 1 and poly = ?sq and cells = ?cells
      and mx = 1 and my = 1]
  note t' = C10_bbox_filter_sound [where st = ?st and st' = st' and mx = 30 and my = 30]
  from t acc have box: "polyBBox ?sq =
        \<lparr>minX = Finite (Min (fst ` set ?sq)), minY = Finite (Min (snd ` set ?sq)),
         maxX = Finite (Max (fst ` set ?sq)), maxY = Finite (Max (snd ` set ?sq))\<rparr>"
    and lo: "Min (fst ` set ?sq) \<le> 1" and hi: "1 \<le> Max (fst ` set ?sq)"
    by blast+
  from t boxes have scan: "findHit 1 1 ?cells = findHitByPolygon 1 1 ?cells"
    by blast
  from t' hyp have hit: "mousemoveHit st' 30 30 = findHitByPolygon 30 30 (hexCells st')"
    by blast
  from box have val: "polyBBox ?sq = \<lparr>minX = Finite 0, minY = Finite 0, maxX = Finite 2, maxY = Finite 2\<rparr>"
    by simp
  from acc val lo hi scan run three hit show ?thesis by blast
qed

end
